theory Spec2Isabelle
  imports Main "HOL-Library.Word"
begin

unbundle bit_operations_syntax

section \<open>Data model of the console driver\<close>

text \<open>
  The driver (console.c) owns three pieces of global state: the \<open>input\<close> ring buffer,
  the \<open>cons\<close> lock record with the \<open>panicked\<close> flag, and the memory-mapped text
  framebuffer \<open>crt\<close> with the cursor held in the CRT controller's registers 14 and 15.
  Calls into code that is not part of the driver (uartputc, cli, acquire, release, sleep,
  wakeup, iunlock, ilock, lidt, procdump, getcallerpcs, acpi_halt) are recorded, in order,
  in a trace of events. What procdump prints is not modelled: it depends on the process
  table, which is outside the driver.
\<close>

datatype lock_id = ConsLock | InputLock

datatype event =
    Cli
  | Acquire lock_id
  | Release lock_id
  | Iunlock
  | Ilock
  | Lidt
  | Procdump
  | Wakeup
  | Sleep
  | Uartputc int
  | Getcallerpcs
  | AcpiHalt

text \<open>
  \<open>crt\<close> is the cell at \<open>crt + i\<close>; \<open>crtc_index\<close> is the value last written to port
  \<open>CRTPORT\<close> and \<open>crtc_regs\<close> the register file read and written through port
  \<open>CRTPORT + 1\<close>. \<open>proc_killed\<close> is \<open>proc->killed\<close> of the calling task.
  \<open>scrolls\<close> is a ghost counter: it counts how often the scroll branch of cgaputc ran.
\<close>

record machine =
  panicked :: int
  cons_locking :: int
  crt :: "nat \<Rightarrow> 16 word"
  crtc_index :: "8 word"
  crtc_regs :: "8 word \<Rightarrow> 8 word"
  proc_killed :: int
  trace :: "event list"
  scrolls :: nat

text \<open>The \<open>input\<close> struct: \<open>char buf[INPUT_BUF]\<close> and the three \<open>uint\<close> indices.\<close>

record input_t =
  input_buf :: "nat \<Rightarrow> 8 word"
  input_r :: "32 word"
  input_w :: "32 word"
  input_e :: "32 word"

text \<open>
  A call returns, or spins forever (the \<open>for (;;)\<close> of consputc and panic), or faults
  (undefined behaviour of the C code). Each outcome carries the state reached, \<open>final\<close>.
\<close>

datatype 's outcome =
    is_Returns: Returns (final: 's)
  | is_Spins: Spins (final: 's)
  | is_Faults: Faults (final: 's)

definition INPUT_BUF :: "32 word" where
  "INPUT_BUF = 128"

definition BACKSPACE :: int where
  "BACKSPACE = 0x100"

definition COLUMNS :: int where
  "COLUMNS = 80"

definition DEFAULT_CONSOLE_COLOR :: "32 word" where
  "DEFAULT_CONSOLE_COLOR = push_bit 4 0x0 + 0x7"

definition emit :: "event list \<Rightarrow> machine \<Rightarrow> machine" where
  "emit evs m = m\<lparr>trace := trace m @ evs\<rparr>"

section \<open>Output: cgaputc and consputc\<close>

definition uartputc :: "int \<Rightarrow> machine \<Rightarrow> machine" where
  "uartputc c m = emit [Uartputc c] m"

definition outb_CRTPORT :: "8 word \<Rightarrow> machine \<Rightarrow> machine" where
  "outb_CRTPORT v m = m\<lparr>crtc_index := v\<rparr>"

definition inb_CRTPORT1 :: "machine \<Rightarrow> 8 word" where
  "inb_CRTPORT1 m = crtc_regs m (crtc_index m)"

definition outb_CRTPORT1 :: "8 word \<Rightarrow> machine \<Rightarrow> machine" where
  "outb_CRTPORT1 v m = m\<lparr>crtc_regs := (crtc_regs m)(crtc_index m := v)\<rparr>"

text \<open>Lines 190-193: the cursor position \<open>col + 80*row\<close> read from registers 14 and 15.\<close>

definition cga_getpos :: "machine \<Rightarrow> int \<times> machine" where
  "cga_getpos m =
     (let m1 = outb_CRTPORT 14 m;
          pos = push_bit 8 (uint (inb_CRTPORT1 m1));
          m2 = outb_CRTPORT 15 m1
      in (pos OR uint (inb_CRTPORT1 m2), m2))"

text \<open>Lines 208-212: the position written back, and the caret cell \<open>' ' | 0x0700\<close>.\<close>

definition cga_setpos :: "int \<Rightarrow> machine \<Rightarrow> machine" where
  "cga_setpos pos m =
     (let m1 = outb_CRTPORT 14 m;
          m2 = outb_CRTPORT1 (word_of_int (drop_bit 8 pos)) m1;
          m3 = outb_CRTPORT 15 m2;
          m4 = outb_CRTPORT1 (word_of_int pos) m3
      in m4\<lparr>crt := (crt m4)(nat pos := 0x20 OR 0x0700)\<rparr>)"

text \<open>The cell \<open>(c & 0xFF) | (color << 8)\<close>, truncated to the 16 bits of \<open>crt[pos]\<close>.\<close>

definition cga_cell :: "int \<Rightarrow> 32 word \<Rightarrow> 16 word" where
  "cga_cell c color = ucast ((word_of_int (c AND 0xFF) :: 32 word) OR push_bit 8 color)"

text \<open>
  Lines 202-206. memmove copies rows 1..23 onto rows 0..22; the position goes back one
  row; memset clears from the position up to the end of row 23. The byte count of memset
  is \<open>sizeof(crt[0]) * (24*COLUMNS - pos)\<close>, converted to an unsigned size: a negative
  difference is a huge count, which is a fault.
\<close>

definition cga_scroll :: "int \<Rightarrow> machine \<Rightarrow> (int \<times> machine) outcome" where
  "cga_scroll pos m =
     (let m1 = m\<lparr>crt := (\<lambda>i. if i < 23 * 80 then crt m (i + 80) else crt m i),
                  scrolls := scrolls m + 1\<rparr>;
          pos1 = pos - COLUMNS
      in if 24 * COLUMNS - pos1 < 0 then Faults (pos1, m1)
         else Returns (pos1,
                m1\<lparr>crt := (\<lambda>i. if nat pos1 \<le> i \<and> i < nat (24 * COLUMNS) then 0 else crt m1 i)\<rparr>))"

definition cgaputc :: "int \<Rightarrow> 32 word \<Rightarrow> machine \<Rightarrow> machine outcome" where
  "cgaputc c color m =
     (let (pos, m1) = cga_getpos m;
          (pos1, m2) =
            (if c = 10 then (pos + (COLUMNS - pos mod COLUMNS), m1)
             else if c = BACKSPACE then (if pos > 0 then pos - 1 else pos, m1)
             else (pos + 1, m1\<lparr>crt := (crt m1)(nat pos := cga_cell c color)\<rparr>))
      in if pos1 div COLUMNS \<ge> 24 then
           (case cga_scroll pos1 m2 of
              Returns (pos2, m3) \<Rightarrow> Returns (cga_setpos pos2 m3)
            | Spins (pos2, m3) \<Rightarrow> Spins m3
            | Faults (pos2, m3) \<Rightarrow> Faults m3)
         else Returns (cga_setpos pos1 m2))"

definition consputc :: "int \<Rightarrow> 32 word \<Rightarrow> machine \<Rightarrow> machine outcome" where
  "consputc c color m =
     (if panicked m \<noteq> 0 then Spins (emit [Cli] m)
      else
        (let m1 = (if c = BACKSPACE then uartputc 8 (uartputc 32 (uartputc 8 m))
                   else uartputc c m)
         in cgaputc c color m1))"

text \<open>
  consolewrite: \<open>buf\<close> is the list of the \<open>n\<close> bytes the caller passes; each is sent
  as \<open>buf[i] & 0xff\<close>. When the call returns, the value returned is \<open>n\<close>.
\<close>

fun consolewrite_loop :: "8 word list \<Rightarrow> machine \<Rightarrow> machine outcome" where
  "consolewrite_loop [] m = Returns m"
| "consolewrite_loop (b # bs) m =
     (case consputc (sint b AND 0xff) DEFAULT_CONSOLE_COLOR m of
        Returns m1 \<Rightarrow> consolewrite_loop bs m1
      | Spins m1 \<Rightarrow> Spins m1
      | Faults m1 \<Rightarrow> Faults m1)"

definition consolewrite :: "8 word list \<Rightarrow> machine \<Rightarrow> machine outcome" where
  "consolewrite buf m =
     (case consolewrite_loop buf (emit [Iunlock, Acquire ConsLock] m) of
        Returns m1 \<Rightarrow> Returns (emit [Release ConsLock, Ilock] m1)
      | Spins m1 \<Rightarrow> Spins m1
      | Faults m1 \<Rightarrow> Faults m1)"

section \<open>Formatted output: printint, printptr, cprintf, panic\<close>

definition then_do :: "machine outcome \<Rightarrow> (machine \<Rightarrow> machine outcome) \<Rightarrow> machine outcome" where
  "then_do x f = (case x of Returns m \<Rightarrow> f m | Spins m \<Rightarrow> Spins m | Faults m \<Rightarrow> Faults m)"

definition bytes :: "string \<Rightarrow> 8 word list" where
  "bytes str = map of_char str"

text \<open>\<open>static char digits[] = "0123456789abcdef"\<close>, with its terminating zero.\<close>

definition digits :: "8 word list" where
  "digits = bytes ''0123456789abcdef'' @ [0]"

text \<open>
  The loop of lines 141-142: one call of consputc for each character of a C string,
  up to its terminating zero; a \<open>char\<close> is promoted to \<open>int\<close> with its sign.
\<close>

fun consputc_str :: "8 word list \<Rightarrow> 32 word \<Rightarrow> machine \<Rightarrow> machine outcome" where
  "consputc_str [] color m = Returns m"
| "consputc_str (b # bs) color m =
     (if b = 0 then Returns m
      else then_do (consputc (sint b) color m) (consputc_str bs color))"

text \<open>The loop of lines 101-102 of printint over the characters of \<open>buf\<close>, last one first.\<close>

fun printint_out :: "8 word list \<Rightarrow> 32 word \<Rightarrow> machine \<Rightarrow> machine outcome" where
  "printint_out [] color m = Returns m"
| "printint_out (b # bs) color m = then_do (consputc (sint b) color m) (printint_out bs color)"

text \<open>
  The do-while loop of printint, lines 93-96: the characters stored in \<open>buf\<close>, lowest
  digit first. \<open>None\<close> is a fault: a division by zero, a read past the end of
  \<open>digits\<close>, or a loop that never ends (base 1) and runs past \<open>buf[16]\<close>.
\<close>

function printint_buf :: "32 word \<Rightarrow> 32 word \<Rightarrow> 8 word list option" where
  "printint_buf x base =
     (if base = 0 \<or> length digits \<le> unat (x mod base) then None
      else if x div base = 0 then Some [digits ! unat (x mod base)]
      else if base = 1 then None
      else map_option (\<lambda>ds. digits ! unat (x mod base) # ds) (printint_buf (x div base) base))"
  by pat_completeness auto
termination
proof (relation "measure (\<lambda>(x, base). unat x)")
  show "wf (measure (\<lambda>(x, base). unat x))"
    by simp
next
  fix x base :: "32 word"
  assume a: "\<not> (base = 0 \<or> length digits \<le> unat (x mod base))"
    and d: "x div base \<noteq> 0" and b1: "base \<noteq> 1"
  from a have b0: "base \<noteq> 0"
    by blast
  have "unat base \<noteq> 0"
    using b0 by (simp add: unat_eq_zero)
  moreover have "unat base \<noteq> 1"
    using b1 by (simp add: word_unat_eq_iff)
  ultimately have b: "2 \<le> unat base"
    by arith
  have "x \<noteq> 0"
    using d by auto
  then have "0 < unat x"
    by (simp add: unat_gt_0)
  then have "unat x div unat base < unat x"
    using b by (intro div_less_dividend) simp_all
  then show "((x div base, base), (x, base)) \<in> measure (\<lambda>(x, base). unat x)"
    by (simp add: unat_div)
qed

declare printint_buf.simps [simp del]

definition printint :: "32 word \<Rightarrow> 32 word \<Rightarrow> int \<Rightarrow> 32 word \<Rightarrow> machine \<Rightarrow> machine outcome" where
  "printint xx base sign color m =
     (let sign1 = (if sign \<noteq> 0 then (if xx <s 0 then 1 else 0) else sign);
          x = (if sign \<noteq> 0 \<and> sign1 \<noteq> 0 then - xx else xx)
      in case printint_buf x base of
           None \<Rightarrow> Faults m
         | Some ds \<Rightarrow>
             (let buf = ds @ (if sign1 \<noteq> (0::int) then [of_char (CHR ''-'')] else [])
              in if 16 < length buf then Faults m
                 else printint_out (rev buf) color m))"

text \<open>
  printptr: \<open>uintp\<close> is declared in types.h, which is not part of the sources; its width
  is the type parameter \<open>'a\<close>, and \<open>sizeof(uintp)\<close> is \<open>LENGTH('a) div 8\<close>. A read past the
  end of \<open>digits\<close> is a fault.
\<close>

fun printptr_loop :: "nat \<Rightarrow> 'a::len word \<Rightarrow> 32 word \<Rightarrow> machine \<Rightarrow> machine outcome" where
  "printptr_loop 0 x color m = Returns m"
| "printptr_loop (Suc k) x color m =
     (let i = unat (drop_bit (LENGTH('a) div 8 * 8 - 4) x)
      in if length digits \<le> i then Faults m
         else then_do (consputc (sint (digits ! i)) color m)
                (printptr_loop k (push_bit 4 x) color))"

definition printptr :: "'a::len word \<Rightarrow> 32 word \<Rightarrow> machine \<Rightarrow> machine outcome" where
  "printptr x color m = printptr_loop (LENGTH('a) div 8 * 2) x color m"

text \<open>
  The variadic arguments of cprintf; \<open>'p\<close> is the type \<open>uintp\<close>. A string argument is \<open>None\<close> for the null pointer
  and the characters it points to otherwise. Reading an argument that was not passed,
  or one of another type, is undefined behaviour: a fault.
\<close>

datatype 'p arg = ArgInt "32 word" | ArgPtr 'p | ArgStr "8 word list option"

text \<open>
  The switch of lines 128-152 on the directive character \<open>c\<close>: the outcome of the
  output and the arguments left.
\<close>

definition cprintf_switch ::
  "int \<Rightarrow> 'a::len word arg list \<Rightarrow> machine \<Rightarrow> machine outcome \<times> 'a word arg list" where
  "cprintf_switch c ap m =
     (if c = 100 then
        (case ap of
           ArgInt v # ap1 \<Rightarrow> (printint v 10 1 DEFAULT_CONSOLE_COLOR m, ap1)
         | _ \<Rightarrow> (Faults m, ap))
      else if c = 120 then
        (case ap of
           ArgInt v # ap1 \<Rightarrow> (printint v 16 0 DEFAULT_CONSOLE_COLOR m, ap1)
         | _ \<Rightarrow> (Faults m, ap))
      else if c = 112 then
        (case ap of
           ArgPtr v # ap1 \<Rightarrow> (printptr v DEFAULT_CONSOLE_COLOR m, ap1)
         | _ \<Rightarrow> (Faults m, ap))
      else if c = 115 then
        (case ap of
           ArgStr sp # ap1 \<Rightarrow>
             (let s = (case sp of None \<Rightarrow> bytes ''(null)'' | Some str \<Rightarrow> str)
              in (consputc_str s DEFAULT_CONSOLE_COLOR m, ap1))
         | _ \<Rightarrow> (Faults m, ap))
      else if c = 37 then (consputc 37 DEFAULT_CONSOLE_COLOR m, ap)
      else
        (then_do (consputc 37 DEFAULT_CONSOLE_COLOR m) (consputc c DEFAULT_CONSOLE_COLOR), ap))"

text \<open>
  The loop of lines 120-153 over the characters of a non-null format string; the list
  ends where the terminating zero is.
\<close>

fun cprintf_loop :: "8 word list \<Rightarrow> 'a::len word arg list \<Rightarrow> machine \<Rightarrow> machine outcome" where
  "cprintf_loop [] ap m = Returns m"
| "cprintf_loop [f] ap m =
     (let c = sint f AND 0xff
      in if c = 0 then Returns m
         else if c \<noteq> 37 then consputc c DEFAULT_CONSOLE_COLOR m
         else Returns m)"
| "cprintf_loop (f # d # fs) ap m =
     (let c = sint f AND 0xff
      in if c = 0 then Returns m
         else if c \<noteq> 37 then
           then_do (consputc c DEFAULT_CONSOLE_COLOR m) (cprintf_loop (d # fs) ap)
         else
           (let c = sint d AND 0xff
            in if c = 0 then Returns m
               else then_do (fst (cprintf_switch c ap m))
                      (cprintf_loop fs (snd (cprintf_switch c ap m)))))"

text \<open>cprintf with a format string that is not null: lines 112-114 and 119-156.\<close>

definition cprintf_fmt :: "8 word list \<Rightarrow> 'a::len word arg list \<Rightarrow> machine \<Rightarrow> machine outcome" where
  "cprintf_fmt fmt ap m =
     (let locking = cons_locking m;
          m1 = (if locking \<noteq> 0 then emit [Acquire ConsLock] m else m)
      in then_do (cprintf_loop fmt ap m1)
           (\<lambda>m2. Returns (if locking \<noteq> 0 then emit [Release ConsLock] m2 else m2)))"

text \<open>
  \<open>cpu->id\<close> and the return addresses that getcallerpcs stores in \<open>pcs\<close> come from
  outside the driver; panic takes them as parameters.
\<close>

record 'p cpu_env =
  cpu_id :: "32 word"
  callerpcs :: "'p list"

text \<open>The loop of lines 168-170 over \<open>pcs\<close>, from index \<open>i\<close>.\<close>

fun panic_stack :: "nat \<Rightarrow> 'a::len word list \<Rightarrow> machine \<Rightarrow> machine outcome" where
  "panic_stack i [] m = Returns m"
| "panic_stack i (pc # pcs) m =
     (if i < 10 \<and> pc \<noteq> 0 then
        then_do (cprintf_fmt ([32] @ bytes ''[%d] %p'' @ [10]) [ArgInt (of_nat i), ArgPtr pc] m)
          (panic_stack (Suc i) pcs)
      else Returns m)"

text \<open>Lines 166-175 of panic, after its message has been printed. It never returns.\<close>

definition panic_tail :: "'a::len word cpu_env \<Rightarrow> machine \<Rightarrow> machine outcome" where
  "panic_tail env m =
     (case
        then_do (cprintf_fmt ([10] @ bytes ''STACK:'' @ [10]) ([] :: 'a word arg list) m)
          (\<lambda>m1. then_do (panic_stack 0 (callerpcs env) (emit [Getcallerpcs] m1))
             (\<lambda>m2. cprintf_fmt (bytes ''HLT'' @ [10]) ([] :: 'a word arg list) m2))
      of
        Returns m3 \<Rightarrow> Spins (emit [AcpiHalt] (m3\<lparr>panicked := 1\<rparr>))
      | Spins m3 \<Rightarrow> Spins m3
      | Faults m3 \<Rightarrow> Faults m3)"

text \<open>Lines 162-164 of panic.\<close>

definition panic_head :: "'a::len word cpu_env \<Rightarrow> machine \<Rightarrow> machine outcome" where
  "panic_head env m =
     cprintf_fmt ([10, 10] @ bytes ''PANIC on cpu %d'' @ [10, 32])
       [ArgInt (cpu_id env) :: 'a word arg] ((emit [Cli] m)\<lparr>cons_locking := 0\<rparr>)"

text \<open>panic with a message that is not null.\<close>

definition panic_str :: "'a::len word cpu_env \<Rightarrow> 8 word list \<Rightarrow> machine \<Rightarrow> machine outcome" where
  "panic_str env s m =
     then_do (panic_head env m)
       (\<lambda>m1. then_do (cprintf_fmt s ([] :: 'a word arg list) m1) (panic_tail env))"

text \<open>
  cprintf. A null format string calls \<open>panic("null fmt")\<close>, which does not return, after
  the lock has been taken.
\<close>

definition cprintf :: "'a::len word cpu_env \<Rightarrow> 8 word list option \<Rightarrow> 'a word arg list \<Rightarrow> machine \<Rightarrow> machine outcome" where
  "cprintf env fmt ap m =
     (case fmt of
        None \<Rightarrow>
          panic_str env (bytes ''null fmt'')
            (if cons_locking m \<noteq> 0 then emit [Acquire ConsLock] m else m)
      | Some f \<Rightarrow> cprintf_fmt f ap m)"

text \<open>
  panic. With a null message, \<open>cprintf(s)\<close> is the call \<open>panic("null fmt")\<close> of cprintf,
  made with \<open>cons.locking\<close> already 0.
\<close>

definition panic :: "'a::len word cpu_env \<Rightarrow> 8 word list option \<Rightarrow> machine \<Rightarrow> machine outcome" where
  "panic env s m =
     (case s of
        Some str \<Rightarrow> panic_str env str m
      | None \<Rightarrow> then_do (panic_head env m) (panic_str env (bytes ''null fmt'')))"

section \<open>Input: consoleintr\<close>

text \<open>
  The kill-line loop of lines 253-257. It stops when the echo does not return.
\<close>

function kill_line :: "input_t \<Rightarrow> machine \<Rightarrow> (input_t \<times> machine) outcome" where
  "kill_line inp m =
     (if input_e inp \<noteq> input_w inp
         \<and> sint (input_buf inp (unat ((input_e inp - 1) mod INPUT_BUF))) \<noteq> 10
      then
        (case consputc BACKSPACE DEFAULT_CONSOLE_COLOR m of
           Returns m1 \<Rightarrow> kill_line (inp\<lparr>input_e := input_e inp - 1\<rparr>) m1
         | Spins m1 \<Rightarrow> Spins (inp\<lparr>input_e := input_e inp - 1\<rparr>, m1)
         | Faults m1 \<Rightarrow> Faults (inp\<lparr>input_e := input_e inp - 1\<rparr>, m1))
      else Returns (inp, m))"
  by pat_completeness auto
termination
proof (relation "measure (\<lambda>(inp, m). unat (input_e inp - input_w inp))")
  show "wf (measure (\<lambda>(inp, m). unat (input_e inp - input_w inp)))"
    by simp
next
  fix inp :: input_t and m x1 :: machine
  assume "input_e inp \<noteq> input_w inp
      \<and> sint (input_buf inp (unat ((input_e inp - 1) mod INPUT_BUF))) \<noteq> 10"
  then have "input_e inp - input_w inp \<noteq> 0"
    by simp
  then have "unat (input_e inp - input_w inp - 1) < unat (input_e inp - input_w inp)"
    by (simp add: unat_minus_one unat_gt_0)
  moreover have "input_e inp - 1 - input_w inp = input_e inp - input_w inp - 1"
    by simp
  ultimately have "unat (input_e inp - 1 - input_w inp) < unat (input_e inp - input_w inp)"
    by (simp only:)
  then show "((inp\<lparr>input_e := input_e inp - 1\<rparr>, x1), (inp, m))
      \<in> measure (\<lambda>(inp, m). unat (input_e inp - input_w inp))"
    by simp
qed

declare kill_line.simps [simp del]

text \<open>One turn of the loop of consoleintr, for the character \<open>c \<ge> 0\<close> that getc returned.\<close>

definition consoleintr_char :: "int \<Rightarrow> input_t \<Rightarrow> machine \<Rightarrow> (input_t \<times> machine) outcome" where
  "consoleintr_char c inp m =
     (if c = 26 then Returns (inp, emit [Lidt] m)
      else if c = 16 then Returns (inp, emit [Procdump] m)
      else if c = 21 then kill_line inp m
      else if c = 8 \<or> c = 0x7f then
        (if input_e inp \<noteq> input_w inp then
           (case consputc BACKSPACE DEFAULT_CONSOLE_COLOR m of
              Returns m1 \<Rightarrow> Returns (inp\<lparr>input_e := input_e inp - 1\<rparr>, m1)
            | Spins m1 \<Rightarrow> Spins (inp\<lparr>input_e := input_e inp - 1\<rparr>, m1)
            | Faults m1 \<Rightarrow> Faults (inp\<lparr>input_e := input_e inp - 1\<rparr>, m1))
         else Returns (inp, m))
      else if c \<noteq> 0 \<and> input_e inp - input_r inp < INPUT_BUF then
        (let c1 = (if c = 13 then 10 else c);
             inp1 = inp\<lparr>input_buf := (input_buf inp)(unat (input_e inp mod INPUT_BUF) := word_of_int c1),
                        input_e := input_e inp + 1\<rparr>
         in case consputc c1 DEFAULT_CONSOLE_COLOR m of
              Returns m1 \<Rightarrow>
                (if c1 = 10 \<or> c1 = 4 \<or> input_e inp1 = input_r inp1 + INPUT_BUF
                 then Returns (inp1\<lparr>input_w := input_e inp1\<rparr>, emit [Wakeup] m1)
                 else Returns (inp1, m1))
            | Spins m1 \<Rightarrow> Spins (inp1, m1)
            | Faults m1 \<Rightarrow> Faults (inp1, m1))
      else Returns (inp, m))"

text \<open>
  The loop \<open>while ((c = getc()) >= 0)\<close>: the list holds the values getc returns, one per
  call; the loop ends at the first negative one (an exhausted list stands for it).
\<close>

fun consoleintr_loop :: "int list \<Rightarrow> input_t \<Rightarrow> machine \<Rightarrow> (input_t \<times> machine) outcome" where
  "consoleintr_loop [] inp m = Returns (inp, m)"
| "consoleintr_loop (c # cs) inp m =
     (if c \<ge> 0 then
        (case consoleintr_char c inp m of
           Returns (inp1, m1) \<Rightarrow> consoleintr_loop cs inp1 m1
         | Spins x \<Rightarrow> Spins x
         | Faults x \<Rightarrow> Faults x)
      else Returns (inp, m))"

definition consoleintr :: "int list \<Rightarrow> input_t \<Rightarrow> machine \<Rightarrow> (input_t \<times> machine) outcome" where
  "consoleintr getc inp m =
     (case consoleintr_loop getc inp (emit [Acquire InputLock] m) of
        Returns (inp1, m1) \<Rightarrow> Returns (inp1, emit [Release InputLock] m1)
      | Spins x \<Rightarrow> Spins x
      | Faults x \<Rightarrow> Faults x)"

section \<open>Blocking read: consoleread\<close>

text \<open>
  A call of consoleread either returns its result with the bytes stored through \<open>dst\<close>,
  or is suspended in \<open>sleep\<close>, with \<open>target\<close>, \<open>n\<close> and the bytes stored so far; when it is
  woken it goes on with the test \<open>input.r == input.w\<close>, which is consoleread_loop at
  the same arguments and the state of that moment.
\<close>

datatype read_outcome =
    ReadReturns (read_result: int) (read_dst: "8 word list")
      (read_input: input_t) (read_machine: machine)
  | ReadSleeps (read_target: "32 word") (read_n: int) (read_dst: "8 word list")
      (read_input: input_t) (read_machine: machine)

text \<open>Lines 311-314: release, ilock, \<open>return target - n\<close>.\<close>

definition consoleread_exit :: "32 word \<Rightarrow> int \<Rightarrow> 8 word list \<Rightarrow> input_t \<Rightarrow> machine \<Rightarrow> read_outcome" where
  "consoleread_exit target n dst inp m =
     ReadReturns (sint (target - word_of_int n)) dst inp (emit [Release InputLock, Ilock] m)"

function consoleread_loop :: "32 word \<Rightarrow> int \<Rightarrow> 8 word list \<Rightarrow> input_t \<Rightarrow> machine \<Rightarrow> read_outcome" where
  "consoleread_loop target n dst inp m =
     (if n > 0 then
        (if input_r inp = input_w inp then
           (if proc_killed m \<noteq> 0
            then ReadReturns (- 1) dst inp (emit [Release InputLock, Ilock] m)
            else ReadSleeps target n dst inp (emit [Sleep] m))
         else
           (let c = sint (input_buf inp (unat (input_r inp mod INPUT_BUF)));
                inp1 = inp\<lparr>input_r := input_r inp + 1\<rparr>
            in if c = 4 then
                 consoleread_exit target n dst
                   (if word_of_int n < target then inp1\<lparr>input_r := input_r inp1 - 1\<rparr> else inp1) m
               else if c = 10 then
                 consoleread_exit target (n - 1) (dst @ [word_of_int c]) inp1 m
               else consoleread_loop target (n - 1) (dst @ [word_of_int c]) inp1 m))
      else consoleread_exit target n dst inp m)"
  by pat_completeness auto
termination
  by (relation "measure (\<lambda>(target, n, dst, inp, m). nat n)") auto

declare consoleread_loop.simps [simp del]

definition consoleread :: "int \<Rightarrow> input_t \<Rightarrow> machine \<Rightarrow> read_outcome" where
  "consoleread n inp m =
     consoleread_loop (word_of_int n) n [] inp (emit [Iunlock, Acquire InputLock] m)"

section \<open>Observations and reference states\<close>

text \<open>The cursor position held in the CRT controller: register 14 is its high byte.\<close>

definition cursor :: "machine \<Rightarrow> int" where
  "cursor m = push_bit 8 (uint (crtc_regs m 14)) OR uint (crtc_regs m 15)"

text \<open>The input buffer at boot (zeroed static storage).\<close>

definition input0 :: input_t where
  "input0 = \<lparr>input_buf = (\<lambda>i. 0), input_r = 0, input_w = 0, input_e = 0\<rparr>"

text \<open>
  A machine with a blank screen (every cell \<open>' ' | 0x0700\<close>), the cursor at offset 0,
  no panic and console locking switched on, as consoleinit leaves \<open>cons.locking\<close>.
\<close>

definition machine0 :: machine where
  "machine0 = \<lparr>panicked = 0, cons_locking = 1, crt = (\<lambda>i. 0x0720), crtc_index = 0,
     crtc_regs = (\<lambda>i. 0), proc_killed = 0, trace = [], scrolls = 0\<rparr>"

text \<open>The position cgaputc computes before the scroll test.\<close>

definition cga_advance :: "int \<Rightarrow> int \<Rightarrow> int" where
  "cga_advance c pos =
     (if c = 10 then pos + (80 - pos mod 80)
      else if c = 0x100 then (if pos > 0 then pos - 1 else pos)
      else pos + 1)"

definition cga_stored :: "int \<Rightarrow> 32 word \<Rightarrow> machine \<Rightarrow> machine" where
  "cga_stored c color m =
     (if c = 10 \<or> c = 0x100 then m\<lparr>crtc_index := 15\<rparr>
      else m\<lparr>crtc_index := 15, crt := (crt m)(nat (cursor m) := cga_cell c color)\<rparr>)"

text \<open>The invariant as the specification writes it, on the 32-bit indices.\<close>

definition input_inv :: "input_t \<Rightarrow> bool" where
  "input_inv inp \<longleftrightarrow>
     input_r inp \<le> input_w inp \<and> input_w inp \<le> input_e inp
     \<and> input_e inp - input_r inp \<le> INPUT_BUF"

text \<open>The invariant with the distances from \<open>r\<close>, computed modulo \<open>2^32\<close> as the code does.\<close>

definition input_inv_mod :: "input_t \<Rightarrow> bool" where
  "input_inv_mod inp \<longleftrightarrow>
     input_w inp - input_r inp \<le> input_e inp - input_r inp
     \<and> input_e inp - input_r inp \<le> INPUT_BUF"

text \<open>How one erased character changes the buffer.\<close>

definition erased :: "input_t \<Rightarrow> input_t \<Rightarrow> bool" where
  "erased inp inp' \<longleftrightarrow>
     input_r inp' = input_r inp \<and> input_w inp' = input_w inp \<and> input_buf inp' = input_buf inp
     \<and> input_w inp - input_r inp \<le> input_e inp' - input_r inp
     \<and> input_e inp' - input_r inp \<le> input_e inp - input_r inp"

text \<open>The character stored by the default case, and the buffer after it is stored.\<close>

definition stored_char :: "int \<Rightarrow> int" where
  "stored_char c = (if c = 13 then 10 else c)"

definition store :: "int \<Rightarrow> input_t \<Rightarrow> input_t" where
  "store c inp = inp\<lparr>input_buf := (input_buf inp)(unat (input_e inp mod INPUT_BUF) := word_of_int (stored_char c)),
                     input_e := input_e inp + 1\<rparr>"

definition is_edit :: "int \<Rightarrow> bool" where
  "is_edit c \<longleftrightarrow> c = 26 \<or> c = 16 \<or> c = 21 \<or> c = 8 \<or> c = 0x7f"

text \<open>
  The input buffers the driver can reach from boot: by a call of consoleintr that
  returns, with any values from getc, and by a run of the loop of consoleread, from its
  start or from a wakeup, up to its return or its next sleep. The rest of the machine
  is changed by other code between the calls, so it is arbitrary at each step.
\<close>

inductive reach :: "input_t \<Rightarrow> bool" where
  boot: "reach input0"
| intr: "reach inp \<Longrightarrow> consoleintr getc inp m = Returns (inp1, m1) \<Longrightarrow> reach inp1"
| read: "reach inp \<Longrightarrow> reach (read_input (consoleread_loop target n dst inp m))"

text \<open>The buffer after \<open>k\<close> empty lines have been typed and read.\<close>

definition lines_read :: "nat \<Rightarrow> input_t" where
  "lines_read k = \<lparr>input_buf = (\<lambda>i. if i < min k 128 then 10 else 0),
     input_r = of_nat k, input_w = of_nat k, input_e = of_nat k\<rparr>"

text \<open>The buffer after \<open>2^32 - 1\<close> empty lines: the three indices are \<open>0xFFFFFFFF\<close>.\<close>

definition input_wrap :: input_t where
  "input_wrap = \<lparr>input_buf = (\<lambda>i. if i < 128 then 10 else 0),
     input_r = 0xFFFFFFFF, input_w = 0xFFFFFFFF, input_e = 0xFFFFFFFF\<rparr>"

text \<open>The buffer after the single character \<open>a\<close> has been typed: \<open>e = 1\<close>, not committed.\<close>

definition input_a :: input_t where
  "input_a = \<lparr>input_buf = (\<lambda>i. 0)(0 := 97), input_r = 0, input_w = 0, input_e = 1\<rparr>"

text \<open>The buffer holds the bytes \<open>xs\<close> from the read index on.\<close>

definition holds_at :: "input_t \<Rightarrow> 8 word list \<Rightarrow> bool" where
  "holds_at inp xs \<longleftrightarrow>
     (\<forall>i<length xs. input_buf inp (unat ((input_r inp + of_nat i) mod INPUT_BUF)) = xs ! i)"

text \<open>A buffer holding the committed line \<open>abc\<close> with its newline.\<close>

definition input_abc :: input_t where
  "input_abc = \<lparr>input_buf = (\<lambda>i. 0)(0 := 97, 1 := 98, 2 := 99, 3 := 10),
     input_r = 0, input_w = 4, input_e = 4\<rparr>"

text \<open>The cell consolewrite stores for the byte \<open>b\<close>.\<close>

definition cell_of :: "8 word \<Rightarrow> 16 word" where
  "cell_of b = cga_cell (sint b AND 0xff) DEFAULT_CONSOLE_COLOR"

text \<open>
  The screen after the bytes \<open>bs\<close> have been stored from offset \<open>p\<close> on without a
  scroll: their cells, then the caret.
\<close>

definition typed :: "nat \<Rightarrow> 8 word list \<Rightarrow> (nat \<Rightarrow> 16 word) \<Rightarrow> nat \<Rightarrow> 16 word" where
  "typed p bs scr =
     (\<lambda>i. if p \<le> i \<and> i < p + length bs then cell_of (bs ! (i - p))
          else if bs \<noteq> [] \<and> i = p + length bs then 0x0720
          else scr i)"

text \<open>
  The screen after a scroll that leaves the cursor at the start of row 23: rows 1..23
  of \<open>scr\<close> moved up by one row, row 23 cleared, the caret at its start.
\<close>

definition scrolled :: "(nat \<Rightarrow> 16 word) \<Rightarrow> nat \<Rightarrow> 16 word" where
  "scrolled scr =
     (\<lambda>i. if i = 1840 then 0x0720
          else if 1840 < i \<and> i < 1920 then 0
          else if i < 1840 then scr (i + 80)
          else scr i)"

text \<open>A machine on which some core has panicked.\<close>

definition machine_panicked :: machine where
  "machine_panicked = machine0\<lparr>panicked := 1\<rparr>"

text \<open>A null string argument replaced by a pointer to the placeholder text.\<close>

definition null_as_text :: "'p arg \<Rightarrow> 'p arg" where
  "null_as_text a = (case a of ArgStr None \<Rightarrow> ArgStr (Some (bytes ''(null)'')) | _ \<Rightarrow> a)"

text \<open>
  The cell of a character in the default colour, light gray on black: the attribute
  byte \<open>0x07\<close> above the character byte.
\<close>

definition default_cell :: "int \<Rightarrow> 16 word" where
  "default_cell c = word_of_int (c mod 256) + 0x0700"

text \<open>
  What the output of one character in the default colour does to the screen and the
  cursor offset, by the rules of the specification: newline goes to the start of the
  next row, backspace goes back one cell unless at offset 0, any other character is
  stored at the cursor, which advances; when the cursor reaches row 24 the rows move up
  by one, the rest of row 23 is cleared and the cursor goes back by one row; the caret
  is drawn at the cursor.
\<close>

definition cga_step :: "int \<Rightarrow> (nat \<Rightarrow> 16 word) \<times> int \<Rightarrow> (nat \<Rightarrow> 16 word) \<times> int" where
  "cga_step c sp =
     (let scr = fst sp; pos = snd sp;
          scr1 = (if c = 10 \<or> c = 0x100 then scr else scr(nat pos := default_cell c));
          pos1 = cga_advance c pos
      in if 1920 \<le> pos1
         then ((\<lambda>i. if nat (pos1 - 80) \<le> i \<and> i < 1920 then 0
                    else if i < 1840 then scr1 (i + 80) else scr1 i)
                 (nat (pos1 - 80) := 0x0720),
               pos1 - 80)
         else (scr1(nat pos1 := 0x0720), pos1))"

definition cga_steps :: "int list \<Rightarrow> (nat \<Rightarrow> 16 word) \<times> int \<Rightarrow> (nat \<Rightarrow> 16 word) \<times> int" where
  "cga_steps cs sp = foldl (\<lambda>sp c. cga_step c sp) sp cs"

text \<open>
  The machine \<open>m'\<close> is the machine \<open>m\<close> after the characters \<open>cs\<close> have been put out in
  the default colour: each has been sent to the serial port, in order, the screen and
  the cursor are those that the characters produce, and the machine is still one that
  has not panicked, with its cursor on the screen.
\<close>

definition printed :: "machine \<Rightarrow> int list \<Rightarrow> machine \<Rightarrow> bool" where
  "printed m cs m' \<longleftrightarrow>
     trace m' = trace m @ map Uartputc cs
     \<and> (crt m', cursor m') = cga_steps cs (crt m, cursor m)
     \<and> panicked m' = 0 \<and> cursor m' < 2000
     \<and> cons_locking m' = cons_locking m \<and> proc_killed m' = proc_killed m"

text \<open>The characters printint puts out, first one first: \<open>None\<close> where it faults.\<close>

definition printint_text :: "32 word \<Rightarrow> 32 word \<Rightarrow> int \<Rightarrow> int list option" where
  "printint_text xx base sign =
     (let sign1 = (if sign \<noteq> 0 then (if xx <s 0 then 1 else 0) else sign);
          x = (if sign \<noteq> 0 \<and> sign1 \<noteq> 0 then - xx else xx)
      in case printint_buf x base of
           None \<Rightarrow> None
         | Some ds \<Rightarrow>
             (let buf = ds @ (if sign1 \<noteq> (0::int) then [of_char (CHR ''-'')] else [])
              in if 16 < length buf then None else Some (map sint (rev buf))))"

text \<open>The characters printptr puts out.\<close>

fun printptr_text_loop :: "nat \<Rightarrow> 'a::len word \<Rightarrow> int list option" where
  "printptr_text_loop 0 x = Some []"
| "printptr_text_loop (Suc k) x =
     (let i = unat (drop_bit (LENGTH('a) div 8 * 8 - 4) x)
      in if length digits \<le> i then None
         else map_option ((#) (sint (digits ! i))) (printptr_text_loop k (push_bit 4 x)))"

definition printptr_text :: "'a::len word \<Rightarrow> int list option" where
  "printptr_text x = printptr_text_loop (LENGTH('a) div 8 * 2) x"

text \<open>
  The characters the directive \<open>c\<close> puts out and the arguments it leaves: a decimal or
  hexadecimal integer, a pointer, a string (for the null pointer the placeholder
  \<open>(null)\<close>), a percent sign, and for any other character the percent sign and the
  character. \<open>None\<close> where the argument is missing or of another type.
\<close>

definition cprintf_switch_text ::
  "int \<Rightarrow> 'a::len word arg list \<Rightarrow> (int list \<times> 'a word arg list) option" where
  "cprintf_switch_text c ap =
     (if c = 100 then
        (case ap of
           ArgInt v # ap1 \<Rightarrow> map_option (\<lambda>t. (t, ap1)) (printint_text v 10 1)
         | _ \<Rightarrow> None)
      else if c = 120 then
        (case ap of
           ArgInt v # ap1 \<Rightarrow> map_option (\<lambda>t. (t, ap1)) (printint_text v 16 0)
         | _ \<Rightarrow> None)
      else if c = 112 then
        (case ap of
           ArgPtr v # ap1 \<Rightarrow> map_option (\<lambda>t. (t, ap1)) (printptr_text v)
         | _ \<Rightarrow> None)
      else if c = 115 then
        (case ap of
           ArgStr None # ap1 \<Rightarrow> Some (map sint (bytes ''(null)''), ap1)
         | ArgStr (Some str) # ap1 \<Rightarrow> Some (map sint (takeWhile (\<lambda>b. b \<noteq> 0) str), ap1)
         | _ \<Rightarrow> None)
      else if c = 37 then Some ([37], ap)
      else Some ([37, c], ap))"

text \<open>
  The characters a call of cprintf is to put out for a format string and its arguments:
  the characters of the format up to its end, with each directive replaced by its
  text.
\<close>

fun cprintf_text :: "8 word list \<Rightarrow> 'a::len word arg list \<Rightarrow> int list option" where
  "cprintf_text [] ap = Some []"
| "cprintf_text [f] ap = (if uint f = 0 \<or> uint f = 37 then Some [] else Some [uint f])"
| "cprintf_text (f # d # fs) ap =
     (if uint f = 0 then Some []
      else if uint f \<noteq> 37 then map_option ((#) (uint f)) (cprintf_text (d # fs) ap)
      else if uint d = 0 then Some []
      else
        (case cprintf_switch_text (uint d) ap of
           None \<Rightarrow> None
         | Some (t, ap1) \<Rightarrow> map_option ((@) t) (cprintf_text fs ap1)))"

text \<open>The buffer while \<open>j\<close> characters \<open>x\<close> have been typed on an empty line.\<close>

definition typed_x :: "nat \<Rightarrow> input_t" where
  "typed_x j = \<lparr>input_buf = (\<lambda>i. if i < j then 120 else 0),
     input_r = 0, input_w = 0, input_e = of_nat j\<rparr>"

text \<open>
  The buffer after 128 characters \<open>x\<close> have been typed from boot: it is full, and the
  128 characters are committed without a newline.
\<close>

definition input_full :: input_t where
  "input_full = \<lparr>input_buf = (\<lambda>i. if i < 128 then 120 else 0),
     input_r = 0, input_w = 128, input_e = 128\<rparr>"

text \<open>A machine on which the calling task has been killed.\<close>

definition machine_killed :: machine where
  "machine_killed = machine0\<lparr>proc_killed := 1\<rparr>"

text \<open>
  The arguments that are left when cprintf has gone through a format: each directive
  takes the arguments that \<open>cprintf_switch_text\<close> says it takes.
\<close>

fun cprintf_args :: "8 word list \<Rightarrow> 'a::len word arg list \<Rightarrow> 'a word arg list option" where
  "cprintf_args [] ap = Some ap"
| "cprintf_args [f] ap = Some ap"
| "cprintf_args (f # d # fs) ap =
     (if uint f = 0 then Some ap
      else if uint f \<noteq> 37 then cprintf_args (d # fs) ap
      else if uint d = 0 then Some ap
      else
        (case cprintf_switch_text (uint d) ap of
           None \<Rightarrow> None
         | Some (t, ap1) \<Rightarrow> cprintf_args fs ap1))"

text \<open>
  A piece of a format string after which more of the format can follow: it holds no
  terminating zero, and it does not end in the middle of a directive.
\<close>

fun fmt_piece :: "8 word list \<Rightarrow> bool" where
  "fmt_piece [] = True"
| "fmt_piece [f] = (uint f \<noteq> 0 \<and> uint f \<noteq> 37)"
| "fmt_piece (f # d # fs) =
     (uint f \<noteq> 0 \<and> (if uint f \<noteq> 37 then fmt_piece (d # fs) else uint d \<noteq> 0 \<and> fmt_piece fs))"

text \<open>
  The machine \<open>m'\<close> is the machine \<open>m\<close> after a call of cprintf that has put out the
  characters \<open>cs\<close>: they have been sent to the serial port in order, between taking and
  releasing the console lock when locking is on, and the screen and the cursor are
  those that the characters produce.
\<close>

definition cprintf_printed :: "machine \<Rightarrow> int list \<Rightarrow> machine \<Rightarrow> bool" where
  "cprintf_printed m cs m' \<longleftrightarrow>
     trace m' = trace m
       @ (if cons_locking m \<noteq> 0 then [Acquire ConsLock] else [])
       @ map Uartputc cs
       @ (if cons_locking m \<noteq> 0 then [Release ConsLock] else [])
     \<and> (crt m', cursor m') = cga_steps cs (crt m, cursor m)
     \<and> panicked m' = 0 \<and> cursor m' < 2000
     \<and> cons_locking m' = cons_locking m \<and> proc_killed m' = proc_killed m"

section \<open>Basic facts\<close>

lemma emit_emit: "emit b (emit a m) = emit (a @ b) m"
  by (simp add: emit_def)

lemma emit_fields [simp]:
  "panicked (emit a m) = panicked m" "cons_locking (emit a m) = cons_locking m"
  "crt (emit a m) = crt m" "crtc_index (emit a m) = crtc_index m"
  "crtc_regs (emit a m) = crtc_regs m" "proc_killed (emit a m) = proc_killed m"
  "scrolls (emit a m) = scrolls m" "trace (emit a m) = trace m @ a"
  by (simp_all add: emit_def)

section \<open>The zero character\<close>

text \<open>
  Claim C10. A character with code 0 pulled from the keyboard callback is dropped by
  consoleintr whatever the room in the buffer: the turn of the loop returns with the
  input buffer and the machine exactly as they were, so nothing is stored, none of
  \<open>r\<close>, \<open>w\<close>, \<open>e\<close> moves, nothing is echoed to the serial port or the screen, and
  there is no commit and no wakeup. Feeding it is the same as not feeding it.
\<close>

theorem consoleintr_drops_zero:
  "consoleintr_char 0 inp m = Returns (inp, m)
   \<and> consoleintr_loop (0 # cs) inp m = consoleintr_loop cs inp m
   \<and> consoleintr [0] inp m = consoleintr [] inp m"
  by (simp add: consoleintr_char_def consoleintr_def)

lemma bytes_or_add: "push_bit 8 (uint (hi :: 8 word)) OR uint (lo :: 8 word) = uint hi * 256 + uint lo"
proof -
  have "push_bit 8 (uint hi) + uint lo = push_bit 8 (uint hi) OR uint lo"
    by (rule disjunctive_add) (auto simp: bit_simps dest: bit_imp_le_length)
  then show ?thesis
    by (simp add: push_bit_eq_mult)
qed

lemma cursor_eq: "cursor m = uint (crtc_regs m 14) * 256 + uint (crtc_regs m 15)"
  by (simp add: cursor_def bytes_or_add)

lemma cursor_nonneg: "0 \<le> cursor m"
  by (simp add: cursor_eq)

lemma cursor_bound: "cursor m < 65536"
proof -
  have "uint (crtc_regs m 14) < 256" "uint (crtc_regs m 15) < 256"
    using uint_bounded[of "crtc_regs m 14"] uint_bounded[of "crtc_regs m 15"] by simp_all
  then show ?thesis by (simp add: cursor_eq)
qed

lemma bytes_pos: "0 \<le> p \<Longrightarrow> p < 65536 \<Longrightarrow>
  uint (word_of_int (drop_bit 8 p) :: 8 word) * 256 + uint (word_of_int p :: 8 word) = p"
proof -
  assume a: "0 \<le> p" "p < 65536"
  have 1: "uint (word_of_int (drop_bit 8 p) :: 8 word) = p div 256"
    using a by (simp add: uint_word_of_int drop_bit_eq_div take_bit_eq_mod)
  have 2: "uint (word_of_int p :: 8 word) = p mod 256"
    by (simp add: uint_word_of_int take_bit_eq_mod)
  show ?thesis
    by (simp add: 1 2)
qed

lemma cga_getpos_eq: "cga_getpos m = (cursor m, m\<lparr>crtc_index := 15\<rparr>)"
  by (simp add: cga_getpos_def cursor_def Let_def outb_CRTPORT_def inb_CRTPORT1_def)

lemma cursor_cga_setpos: "0 \<le> p \<Longrightarrow> p < 65536 \<Longrightarrow> cursor (cga_setpos p m) = p"
  by (simp add: cursor_eq cga_setpos_def Let_def outb_CRTPORT_def outb_CRTPORT1_def bytes_pos)

lemma cga_setpos_fields [simp]:
  "panicked (cga_setpos p m) = panicked m" "cons_locking (cga_setpos p m) = cons_locking m"
  "proc_killed (cga_setpos p m) = proc_killed m" "trace (cga_setpos p m) = trace m"
  "scrolls (cga_setpos p m) = scrolls m"
  "crt (cga_setpos p m) = (crt m)(nat p := 0x0720)"
  by (simp_all add: cga_setpos_def Let_def outb_CRTPORT_def outb_CRTPORT1_def)

lemma next_row: "0 \<le> (pos::int) \<Longrightarrow> pos < 80 * k \<Longrightarrow> pos + (80 - pos mod 80) \<le> 80 * k \<and> pos < pos + (80 - pos mod 80)"
proof -
  assume a: "0 \<le> pos" "pos < 80 * k"
  have m: "0 \<le> pos mod 80" "pos mod 80 < 80" by simp_all
  have d: "pos div 80 < k" using a by (simp add: div_less_iff_less_mult mult.commute)
  have "pos + (80 - pos mod 80) = 80 * (pos div 80) + 80"
    using mult_div_mod_eq[of 80 pos] by linarith
  also have "\<dots> \<le> 80 * k" using d by simp
  finally show ?thesis using m by simp
qed

lemma cga_advance_bounds: "0 \<le> pos \<Longrightarrow> pos < 2000 \<Longrightarrow> 0 \<le> cga_advance c pos \<and> cga_advance c pos \<le> 2000"
  using next_row[of pos 25] by (simp add: cga_advance_def)

lemma row24: "(24 \<le> (p::int) div 80) = (1920 \<le> p)"
  by presburger

lemma cgaputc_eq:
  "cgaputc c color m =
     (if 1920 \<le> cga_advance c (cursor m) then
        (case cga_scroll (cga_advance c (cursor m)) (cga_stored c color m) of
              Returns (pos2, m3) \<Rightarrow> Returns (cga_setpos pos2 m3)
            | Spins (pos2, m3) \<Rightarrow> Spins m3
            | Faults (pos2, m3) \<Rightarrow> Faults m3)
      else Returns (cga_setpos (cga_advance c (cursor m)) (cga_stored c color m)))"
  by (simp add: cgaputc_def cga_getpos_eq cga_advance_def cga_stored_def COLUMNS_def BACKSPACE_def row24)

lemma cgaputc_noscroll:
  assumes "cga_advance c (cursor m) < 1920"
  shows "cgaputc c color m = Returns (cga_setpos (cga_advance c (cursor m)) (cga_stored c color m))"
  using assms by (simp add: cgaputc_eq)

lemma cga_stored_fields [simp]:
  "panicked (cga_stored c color m) = panicked m" "cons_locking (cga_stored c color m) = cons_locking m"
  "proc_killed (cga_stored c color m) = proc_killed m" "trace (cga_stored c color m) = trace m"
  "scrolls (cga_stored c color m) = scrolls m"
  by (simp_all add: cga_stored_def)

lemma cga_scroll_eq:
  assumes "pos \<le> 2000"
  shows "cga_scroll pos m = Returns (pos - 80,
     m\<lparr>crt := (\<lambda>i. if nat (pos - 80) \<le> i \<and> i < 1920 then 0
                    else if i < 1840 then crt m (i + 80) else crt m i),
        scrolls := scrolls m + 1\<rparr>)"
  using assms by (simp add: cga_scroll_def COLUMNS_def Let_def cong del: if_weak_cong)

lemma cgaputc_scroll:
  assumes "1920 \<le> cga_advance c (cursor m)" "cga_advance c (cursor m) \<le> 2000"
  shows "\<exists>m'. cgaputc c color m = Returns m' \<and> cursor m' = cga_advance c (cursor m) - 80
     \<and> panicked m' = panicked m \<and> cons_locking m' = cons_locking m \<and> proc_killed m' = proc_killed m
     \<and> trace m' = trace m \<and> scrolls m' = scrolls m + 1"
  using assms by (simp add: cgaputc_eq cga_scroll_eq cursor_cga_setpos)

lemma cgaputc_ok:
  assumes "cursor m < 2000"
  shows "\<exists>m'. cgaputc c color m = Returns m' \<and> cursor m' < 2000
     \<and> panicked m' = panicked m \<and> cons_locking m' = cons_locking m \<and> proc_killed m' = proc_killed m
     \<and> trace m' = trace m"
proof (cases "cga_advance c (cursor m) < 1920")
  case True
  have "0 \<le> cga_advance c (cursor m)"
    using cga_advance_bounds[OF cursor_nonneg assms] by simp
  then have "cursor (cga_setpos (cga_advance c (cursor m)) m1) < 2000" for m1
    using True by (simp add: cursor_cga_setpos)
  then show ?thesis
    using cgaputc_noscroll[OF True, of color] by simp
next
  case False
  then have "1920 \<le> cga_advance c (cursor m)" "cga_advance c (cursor m) \<le> 2000"
    using cga_advance_bounds[OF cursor_nonneg assms, of c] by simp_all
  from cgaputc_scroll[OF this, of color] show ?thesis
    using \<open>cga_advance c (cursor m) \<le> 2000\<close> by auto
qed

lemma cursor_emit [simp]: "cursor (emit a m) = cursor m"
  by (simp add: cursor_def)

lemma consputc_ok:
  assumes "panicked m = 0" "cursor m < 2000"
  shows "\<exists>m'. consputc c color m = Returns m' \<and> cursor m' < 2000
     \<and> panicked m' = 0 \<and> cons_locking m' = cons_locking m \<and> proc_killed m' = proc_killed m"
proof -
  define m1 where "m1 = (if c = BACKSPACE then uartputc 8 (uartputc 32 (uartputc 8 m)) else uartputc c m)"
  have "cursor m1 < 2000" "panicked m1 = panicked m" "cons_locking m1 = cons_locking m" "proc_killed m1 = proc_killed m"
    using assms by (simp_all add: m1_def uartputc_def)
  then show ?thesis
    using cgaputc_ok[of m1 c color] assms
    by (auto simp: consputc_def Let_def m1_def[symmetric])
qed

lemma consputc_spins: "panicked m \<noteq> 0 \<Longrightarrow> consputc c color m = Spins (emit [Cli] m)"
  by (simp add: consputc_def)

lemma consoleintr_eof:
  assumes "input_r inp = input_e inp" "panicked m = 0" "cursor m < 2000"
  shows "\<exists>m1. consoleintr [4] inp m =
     Returns (inp\<lparr>input_buf := (input_buf inp)(unat (input_e inp mod INPUT_BUF) := 4),
                 input_e := input_e inp + 1, input_w := input_e inp + 1\<rparr>, m1)"
proof -
  obtain m1 where "consputc 4 DEFAULT_CONSOLE_COLOR (emit [Acquire InputLock] m) = Returns m1"
    using consputc_ok[of "emit [Acquire InputLock] m" 4 DEFAULT_CONSOLE_COLOR] assms by auto
  then show ?thesis
    using assms by (simp add: consoleintr_def consoleintr_char_def INPUT_BUF_def)
qed

section \<open>End of input\<close>

text \<open>
  Claim C1. From any input buffer with nothing pending (\<open>r = w = e\<close>), on a machine
  that has not panicked and whose cursor is on the 80x25 screen, feeding one EOF marker
  (\<open>C('D') = 4\<close>) to consoleintr returns; a consoleread for \<open>n1 > 0\<close> bytes then
  returns 0 with nothing delivered; the buffer is empty again (\<open>r = w\<close>), and the
  following consoleread, for \<open>n2 > 0\<close> bytes by a task that is not killed, does not see
  the EOF marker again: it goes to sleep, having delivered nothing. \<open>ma\<close> and \<open>mb\<close>
  are the machine at the time of the two reads.
\<close>

theorem eof_one_empty_read:
  assumes "input_r inp = input_w inp" and "input_w inp = input_e inp"
    and "panicked m = 0" and "cursor m < 2000"
    and "0 < n1" and "0 < n2" and "proc_killed mb = 0"
  shows "\<exists>inp1 m1 inp2.
           consoleintr [4] inp m = Returns (inp1, m1)
         \<and> consoleread n1 inp1 ma
             = ReadReturns 0 [] inp2 (emit [Iunlock, Acquire InputLock, Release InputLock, Ilock] ma)
         \<and> input_r inp2 = input_w inp2
         \<and> consoleread n2 inp2 mb
             = ReadSleeps (word_of_int n2) n2 [] inp2 (emit [Iunlock, Acquire InputLock, Sleep] mb)"
proof -
  define inp1 where "inp1 = inp\<lparr>input_buf := (input_buf inp)(unat (input_e inp mod INPUT_BUF) := 4),
                 input_e := input_e inp + 1, input_w := input_e inp + 1\<rparr>"
  define inp2 where "inp2 = inp1\<lparr>input_r := input_r inp1 + 1\<rparr>"
  obtain m1 where 1: "consoleintr [4] inp m = Returns (inp1, m1)"
    using consoleintr_eof[of inp m] assms by (auto simp: inp1_def)
  have 2: "consoleread n1 inp1 ma
             = ReadReturns 0 [] inp2 (emit [Iunlock, Acquire InputLock, Release InputLock, Ilock] ma)"
    unfolding consoleread_def
    using assms by (subst consoleread_loop.simps) (simp add: inp1_def inp2_def consoleread_exit_def emit_emit)
  have 3: "input_r inp2 = input_w inp2"
    using assms by (simp add: inp1_def inp2_def)
  have 4: "consoleread n2 inp2 mb
             = ReadSleeps (word_of_int n2) n2 [] inp2 (emit [Iunlock, Acquire InputLock, Sleep] mb)"
    unfolding consoleread_def
    using assms 3 by (subst consoleread_loop.simps) (simp add: emit_emit)
  from 1 2 3 4 show ?thesis by blast
qed

theorem eof_one_empty_read_witness:
  "\<exists>inp1 m1 inp2.
           consoleintr [4] input0 machine0 = Returns (inp1, m1)
         \<and> consoleread 1 inp1 machine0
             = ReadReturns 0 [] inp2 (emit [Iunlock, Acquire InputLock, Release InputLock, Ilock] machine0)
         \<and> input_r inp2 = input_w inp2
         \<and> consoleread 1 inp2 machine0
             = ReadSleeps (word_of_int 1) 1 [] inp2 (emit [Iunlock, Acquire InputLock, Sleep] machine0)"
  using eof_one_empty_read [of input0 machine0 1 1 machine0 machine0]
  by (simp add: input0_def machine0_def cursor_def)

lemma unat_pred: "(b::32 word) \<noteq> 0 \<Longrightarrow> unat (b - 1) = unat b - 1"
  by (simp add: unat_minus_one)

lemma unat_succ: "(b::32 word) < 128 \<Longrightarrow> unat (b + 1) = unat b + 1"
proof -
  assume "b < 128"
  then have "unat b < 128" by (simp add: word_less_nat_alt)
  then have "unat b + unat (1::32 word) < 2 ^ LENGTH(32)" by simp
  then have "unat (b + 1) = unat b + unat (1::32 word)" by (simp only: unat_add_lem[THEN iffD1])
  then show ?thesis by simp
qed

lemma word_pred_le: "(a::32 word) \<le> b \<Longrightarrow> a \<noteq> b \<Longrightarrow> a \<le> b - 1"
proof -
  assume a: "a \<le> b" "a \<noteq> b"
  then have "unat a < unat b" by (simp add: word_le_nat_alt word_unat_eq_iff)
  moreover have "b \<noteq> 0" using a by auto
  ultimately show ?thesis by (simp add: word_le_nat_alt unat_pred)
qed

lemma word_pred_mono: "(a::32 word) \<le> b \<Longrightarrow> a \<noteq> 0 \<Longrightarrow> a - 1 \<le> b - 1"
proof -
  assume a: "a \<le> b" "a \<noteq> 0"
  then have "b \<noteq> 0" by auto
  then show ?thesis using a by (simp add: word_le_nat_alt unat_pred)
qed

lemma word_pred_le_self: "(b::32 word) \<noteq> 0 \<Longrightarrow> b - 1 \<le> b"
  by (simp add: word_le_nat_alt unat_pred)

lemma word_succ_le: "(b::32 word) < 128 \<Longrightarrow> b \<le> b + 1 \<and> b + 1 \<le> 128"
  by (simp add: word_le_nat_alt unat_succ) (simp add: word_less_nat_alt)

lemma erased_refl: "input_inv_mod inp \<Longrightarrow> erased inp inp"
  by (simp add: erased_def input_inv_mod_def)

lemma erased_one:
  assumes "input_inv_mod inp" "input_e inp \<noteq> input_w inp"
  shows "erased inp (inp\<lparr>input_e := input_e inp - 1\<rparr>)"
    and "input_inv_mod (inp\<lparr>input_e := input_e inp - 1\<rparr>)"
proof -
  let ?a = "input_w inp - input_r inp" and ?b = "input_e inp - input_r inp"
  have ab: "?a \<le> ?b" "?b \<le> 128" "?a \<noteq> ?b"
    using assms by (simp_all add: input_inv_mod_def INPUT_BUF_def)
  have eq: "input_e inp - 1 - input_r inp = ?b - 1"
    by simp
  have "?b \<noteq> 0" using ab by auto
  then have "?b - 1 \<le> ?b" by (rule word_pred_le_self)
  moreover have "?a \<le> ?b - 1" using ab by (intro word_pred_le)
  ultimately show "erased inp (inp\<lparr>input_e := input_e inp - 1\<rparr>)"
    and "input_inv_mod (inp\<lparr>input_e := input_e inp - 1\<rparr>)"
    using ab by (simp_all add: erased_def input_inv_mod_def eq INPUT_BUF_def del: diff_diff_eq)
qed

lemma erased_trans: "erased a b \<Longrightarrow> erased b c \<Longrightarrow> erased a c"
  by (auto simp: erased_def)

lemma kill_line_erased:
  "input_inv_mod inp \<Longrightarrow>
     erased inp (fst (final (kill_line inp m))) \<and> input_inv_mod (fst (final (kill_line inp m)))"
proof (induction inp m rule: kill_line.induct)
  case (1 inp m)
  show ?case
  proof (cases "input_e inp \<noteq> input_w inp
         \<and> sint (input_buf inp (unat ((input_e inp - 1) mod INPUT_BUF))) \<noteq> 10")
    case False
    then show ?thesis
      using "1.prems" by (subst (1 2) kill_line.simps) (auto simp: erased_refl)
  next
    case True
    let ?inp1 = "inp\<lparr>input_e := input_e inp - 1\<rparr>"
    have e1: "erased inp ?inp1" "input_inv_mod ?inp1"
      using erased_one[OF "1.prems"] True by simp_all
    show ?thesis
    proof (cases "consputc BACKSPACE DEFAULT_CONSOLE_COLOR m")
      case (Returns m1)
      from "1.IH"[OF True Returns e1(2)]
      have "erased ?inp1 (fst (final (kill_line ?inp1 m1)))"
        "input_inv_mod (fst (final (kill_line ?inp1 m1)))" by simp_all
      then show ?thesis
        using True Returns e1 by (subst (1 2) kill_line.simps) (auto intro: erased_trans)
    next
      case (Spins m1)
      then show ?thesis
        using True e1 by (subst (1 2) kill_line.simps) simp
    next
      case (Faults m1)
      then show ?thesis
        using True e1 by (subst (1 2) kill_line.simps) simp
    qed
  qed
qed

text \<open>What one turn of the loop of consoleintr does to the indices.\<close>

lemma consoleintr_char_step:
  fixes c inp m
  assumes inv: "input_inv_mod inp"
  defines "inp' \<equiv> fst (final (consoleintr_char c inp m))"
  shows "input_inv_mod inp'"
    and "input_r inp' = input_r inp"
    and "input_w inp - input_r inp \<le> input_w inp' - input_r inp"
    and "c \<noteq> 8 \<Longrightarrow> c \<noteq> 0x7f \<Longrightarrow> c \<noteq> 21 \<Longrightarrow> input_e inp - input_r inp \<le> input_e inp' - input_r inp"
    and "c = 8 \<or> c = 0x7f \<or> c = 21 \<Longrightarrow> erased inp inp'"
    and "input_w inp' = input_w inp \<or> input_w inp' = input_e inp'"
proof -
  let ?a = "input_w inp - input_r inp" and ?b = "input_e inp - input_r inp"
  have ab: "?a \<le> ?b" "?b \<le> 128"
    using inv by (simp_all add: input_inv_mod_def INPUT_BUF_def)
  consider (ctl) "c = 26 \<or> c = 16" | (kill) "c = 21" | (bs) "c = 8 \<or> c = 0x7f"
    | (ins) "c \<noteq> 26" "c \<noteq> 16" "c \<noteq> 21" "c \<noteq> 8" "c \<noteq> 0x7f" "c \<noteq> 0 \<and> ?b < 128"
    | (drop) "c \<noteq> 26" "c \<noteq> 16" "c \<noteq> 21" "c \<noteq> 8" "c \<noteq> 0x7f" "\<not> (c \<noteq> 0 \<and> ?b < 128)"
    by blast
  then have "input_inv_mod inp' \<and> input_r inp' = input_r inp \<and> ?a \<le> input_w inp' - input_r inp
     \<and> (c \<noteq> 8 \<longrightarrow> c \<noteq> 0x7f \<longrightarrow> c \<noteq> 21 \<longrightarrow> ?b \<le> input_e inp' - input_r inp)
     \<and> (c = 8 \<or> c = 0x7f \<or> c = 21 \<longrightarrow> erased inp inp')
     \<and> (input_w inp' = input_w inp \<or> input_w inp' = input_e inp')"
  proof cases
    case ctl
    then show ?thesis
      using inv ab by (auto simp: inp'_def consoleintr_char_def)
  next
    case kill
    then have "inp' = fst (final (kill_line inp m))"
      by (simp add: inp'_def consoleintr_char_def)
    then show ?thesis
      using kill_line_erased[OF inv, of m] kill by (auto simp: erased_def)
  next
    case bs
    show ?thesis
    proof (cases "input_e inp \<noteq> input_w inp")
      case True
      have "inp' = inp\<lparr>input_e := input_e inp - 1\<rparr>"
        using bs True unfolding inp'_def consoleintr_char_def
        by (cases "consputc BACKSPACE DEFAULT_CONSOLE_COLOR m") auto
      then show ?thesis
        using erased_one[OF inv True] bs by (auto simp: erased_def)
    next
      case False
      then have "inp' = inp"
        using bs unfolding inp'_def consoleintr_char_def by auto
      then show ?thesis
        using inv ab bs erased_refl[OF inv] by auto
    qed
  next
    case ins
    define c1 where "c1 = (if c = 13 then 10 else c)"
    define inp1 where "inp1 = inp\<lparr>input_buf := (input_buf inp)(unat (input_e inp mod INPUT_BUF) := word_of_int c1),
                        input_e := input_e inp + 1\<rparr>"
    have eq: "input_e inp + 1 - input_r inp = ?b + 1"
      by simp
    have b1: "?b \<le> ?b + 1" "?b + 1 \<le> 128"
      using word_succ_le[of ?b] ins by simp_all
    have i1: "input_inv_mod inp1" "?a \<le> input_w inp1 - input_r inp" "?b \<le> input_e inp1 - input_r inp"
      "input_r inp1 = input_r inp" "input_w inp1 = input_w inp"
      using ab b1 by (auto simp: inp1_def input_inv_mod_def INPUT_BUF_def eq simp del: add_diff_eq diff_add_eq)
    have i2: "input_inv_mod (inp1\<lparr>input_w := input_e inp1\<rparr>)"
      "?a \<le> input_w (inp1\<lparr>input_w := input_e inp1\<rparr>) - input_r inp"
      using ab b1 by (auto simp: inp1_def input_inv_mod_def INPUT_BUF_def eq simp del: add_diff_eq diff_add_eq)
    have "inp' = inp1 \<or> inp' = inp1\<lparr>input_w := input_e inp1\<rparr>"
      using ins unfolding inp'_def consoleintr_char_def inp1_def c1_def
      by (cases "consputc (if c = 13 then 10 else c) DEFAULT_CONSOLE_COLOR m")
         (auto simp: Let_def INPUT_BUF_def)
    then show ?thesis
      using i1 i2 ins by auto
  next
    case drop
    then have "inp' = inp"
      unfolding inp'_def consoleintr_char_def by (auto simp: INPUT_BUF_def)
    then show ?thesis
      using inv ab drop by auto
  qed
  then show "input_inv_mod inp'"
    and "input_r inp' = input_r inp"
    and "input_w inp - input_r inp \<le> input_w inp' - input_r inp"
    and "c \<noteq> 8 \<Longrightarrow> c \<noteq> 0x7f \<Longrightarrow> c \<noteq> 21 \<Longrightarrow> input_e inp - input_r inp \<le> input_e inp' - input_r inp"
    and "c = 8 \<or> c = 0x7f \<or> c = 21 \<Longrightarrow> erased inp inp'"
    and "input_w inp' = input_w inp \<or> input_w inp' = input_e inp'"
    by blast+
qed

lemma consoleintr_loop_step:
  "input_inv_mod inp \<Longrightarrow>
     input_inv_mod (fst (final (consoleintr_loop cs inp m)))
     \<and> input_r (fst (final (consoleintr_loop cs inp m))) = input_r inp
     \<and> input_w inp - input_r inp \<le> input_w (fst (final (consoleintr_loop cs inp m))) - input_r inp"
proof (induction cs arbitrary: inp m)
  case Nil
  then show ?case by simp
next
  case (Cons c cs)
  note st = consoleintr_char_step(1-3)[OF Cons.prems, of c m]
  show ?case
  proof (cases "c \<ge> 0")
    case False
    then show ?thesis using Cons.prems by simp
  next
    case True
    show ?thesis
    proof (cases "consoleintr_char c inp m")
      case (Returns x)
      obtain inp1 m1 where x: "x = (inp1, m1)" by (cases x)
      have 1: "input_inv_mod inp1" "input_r inp1 = input_r inp"
        "input_w inp - input_r inp \<le> input_w inp1 - input_r inp"
        using st Returns x by simp_all
      from Cons.IH[OF 1(1), of m1] 1 show ?thesis
        using True Returns x by (auto intro: order_trans)
    next
      case (Spins x)
      then show ?thesis using st True by simp
    next
      case (Faults x)
      then show ?thesis using st True by simp
    qed
  qed
qed

lemma final_consoleintr:
  "fst (final (consoleintr cs inp m)) = fst (final (consoleintr_loop cs inp (emit [Acquire InputLock] m)))"
  unfolding consoleintr_def
  by (cases "consoleintr_loop cs inp (emit [Acquire InputLock] m)") (auto split: prod.splits)

lemma word_succ_le_pred: "(x::32 word) \<le> a - 1 \<Longrightarrow> a \<noteq> 0 \<Longrightarrow> x + 1 \<le> a"
proof -
  assume a: "x \<le> a - 1" "a \<noteq> 0"
  then have 1: "unat x \<le> unat a - 1" "0 < unat a"
    by (simp_all add: word_le_nat_alt unat_pred unat_gt_0)
  have "unat a < 2 ^ LENGTH(32)" by (rule unsigned_less)
  then have "unat x + unat (1::32 word) < 2 ^ LENGTH(32)" using 1 by simp
  then have "unat (x + 1) = unat x + unat (1::32 word)" by (simp only: unat_add_lem[THEN iffD1])
  then show ?thesis using 1 by (simp add: word_le_nat_alt)
qed

lemma word_one_le: "(a::32 word) \<noteq> 0 \<Longrightarrow> 1 \<le> a"
  by (simp add: word_le_nat_alt) (metis One_nat_def Suc_leI unat_gt_0)

lemma read_one:
  assumes "input_inv_mod inp" "input_r inp \<noteq> input_w inp"
  shows "input_inv_mod (inp\<lparr>input_r := input_r inp + 1\<rparr>)"
    and "input_w inp - (input_r inp + 1) = input_w inp - input_r inp - 1"
    and "input_w inp - input_r inp \<noteq> 0"
proof -
  let ?a = "input_w inp - input_r inp" and ?b = "input_e inp - input_r inp"
  have ab: "?a \<le> ?b" "?b \<le> 128" "?a \<noteq> 0"
    using assms by (auto simp: input_inv_mod_def INPUT_BUF_def)
  have eq: "input_w inp - (input_r inp + 1) = ?a - 1" "input_e inp - (input_r inp + 1) = ?b - 1"
    by simp_all
  have "?b \<noteq> 0" using ab by auto
  then have "?b - 1 \<le> 128" using word_pred_le_self[of ?b] ab by simp
  moreover have "?a - 1 \<le> ?b - 1" using ab by (intro word_pred_mono)
  ultimately show "input_inv_mod (inp\<lparr>input_r := input_r inp + 1\<rparr>)"
    by (simp add: input_inv_mod_def INPUT_BUF_def eq del: diff_diff_eq diff_add_eq add_diff_eq)
  show "input_w inp - (input_r inp + 1) = ?a - 1" by simp
  show "?a \<noteq> 0" by (rule ab)
qed

lemma consoleread_loop_step:
  "input_inv_mod inp \<Longrightarrow>
     input_inv_mod (read_input (consoleread_loop target n dst inp m))
     \<and> input_w (read_input (consoleread_loop target n dst inp m)) = input_w inp
     \<and> input_e (read_input (consoleread_loop target n dst inp m)) = input_e inp
     \<and> input_buf (read_input (consoleread_loop target n dst inp m)) = input_buf inp
     \<and> input_r (read_input (consoleread_loop target n dst inp m)) - input_r inp
         \<le> input_w inp - input_r inp"
proof (induction target n dst inp m rule: consoleread_loop.induct)
  case (1 target n dst inp m)
  let ?a = "input_w inp - input_r inp"
  let ?inp1 = "inp\<lparr>input_r := input_r inp + 1\<rparr>"
  let ?c = "sint (input_buf inp (unat (input_r inp mod INPUT_BUF)))"
  consider (stop) "\<not> 0 < n" | (empty) "0 < n" "input_r inp = input_w inp"
    | (eof) "0 < n" "input_r inp \<noteq> input_w inp" "?c = 4"
    | (nl) "0 < n" "input_r inp \<noteq> input_w inp" "?c \<noteq> 4" "?c = 10"
    | (more) "0 < n" "input_r inp \<noteq> input_w inp" "?c \<noteq> 4" "?c \<noteq> 10"
    by blast
  then show ?case
  proof cases
    case stop
    then show ?thesis
      using "1.prems" by (subst (1 2 3 4 5) consoleread_loop.simps) (simp add: consoleread_exit_def)
  next
    case empty
    then show ?thesis
      using "1.prems" by (subst (1 2 3 4 5) consoleread_loop.simps) simp
  next
    case eof
    note r1 = read_one[OF "1.prems" eof(2)]
    have "1 \<le> ?a" using r1(3) by (rule word_one_le)
    then show ?thesis
      using "1.prems" eof r1(1)
      by (subst (1 2 3 4 5) consoleread_loop.simps) (simp add: consoleread_exit_def Let_def)
  next
    case nl
    note r1 = read_one[OF "1.prems" nl(2)]
    have "1 \<le> ?a" using r1(3) by (rule word_one_le)
    then show ?thesis
      using "1.prems" nl r1(1)
      by (subst (1 2 3 4 5) consoleread_loop.simps) (simp add: consoleread_exit_def Let_def)
  next
    case more
    note r1 = read_one[OF "1.prems" more(2)]
    let ?res = "read_input (consoleread_loop target (n - 1) (dst @ [word_of_int ?c]) ?inp1 m)"
    have ih: "input_inv_mod ?res" "input_w ?res = input_w inp" "input_e ?res = input_e inp"
      "input_buf ?res = input_buf inp" "input_r ?res - (input_r inp + 1) \<le> ?a - 1"
      using "1.IH"[OF more(1,2) refl refl more(3,4) r1(1)] r1(2) by simp_all
    have "input_r ?res - input_r inp = (input_r ?res - (input_r inp + 1)) + 1"
      by simp
    also have "\<dots> \<le> ?a"
      using ih(5) r1(3) by (rule word_succ_le_pred)
    finally have "input_r ?res - input_r inp \<le> ?a" .
    moreover have "consoleread_loop target n dst inp m
        = consoleread_loop target (n - 1) (dst @ [word_of_int ?c]) ?inp1 m"
      using more by (subst consoleread_loop.simps) (simp add: Let_def)
    ultimately show ?thesis
      using ih by simp
  qed
qed

lemma consoleintr_char_default:
  assumes "\<not> is_edit c" "c \<noteq> 0" "input_e inp - input_r inp < INPUT_BUF"
  shows "consoleintr_char c inp m =
     (case consputc (stored_char c) DEFAULT_CONSOLE_COLOR m of
        Returns m1 \<Rightarrow>
          if stored_char c = 10 \<or> stored_char c = 4 \<or> input_e inp + 1 = input_r inp + INPUT_BUF
          then Returns ((store c inp)\<lparr>input_w := input_e inp + 1\<rparr>, emit [Wakeup] m1)
          else Returns (store c inp, m1)
      | Spins m1 \<Rightarrow> Spins (store c inp, m1)
      | Faults m1 \<Rightarrow> Faults (store c inp, m1))"
  using assms unfolding consoleintr_char_def is_edit_def store_def stored_char_def
  by (auto simp: Let_def split: outcome.split)

lemma consputc_returns_default:
  assumes "panicked m = 0" "cursor m < 2000"
  shows "\<exists>m1. consputc c DEFAULT_CONSOLE_COLOR m = Returns m1 \<and> panicked m1 = 0 \<and> cursor m1 < 2000"
  using consputc_ok[OF assms, of c DEFAULT_CONSOLE_COLOR] by blast

lemma machine0_ok: "panicked machine0 = 0" "cursor machine0 < 2000"
  by (simp_all add: machine0_def cursor_def)

lemma input_inv_mod_input0: "input_inv_mod input0"
  by (simp add: input_inv_mod_def input0_def INPUT_BUF_def)

lemma reach_inv_mod: "reach inp \<Longrightarrow> input_inv_mod inp"
proof (induction rule: reach.induct)
  case boot
  show ?case by (rule input_inv_mod_input0)
next
  case (intr inp getc m inp1 m1)
  have "input_inv_mod (fst (final (consoleintr getc inp m)))"
    using consoleintr_loop_step[OF intr.IH] by (simp add: final_consoleintr)
  then show ?case using intr.hyps by simp
next
  case (read inp target n dst m)
  then show ?case using consoleread_loop_step by blast
qed

lemma input_inv_mod_literal:
  assumes "input_inv_mod inp" "input_r inp \<le> input_e inp"
  shows "input_inv inp"
proof -
  let ?a = "input_w inp - input_r inp" and ?b = "input_e inp - input_r inp"
  have ab: "?a \<le> ?b" "?b \<le> 128"
    using assms by (simp_all add: input_inv_mod_def INPUT_BUF_def)
  have b: "unat ?b = unat (input_e inp) - unat (input_r inp)"
    using assms(2) by (simp add: unat_sub)
  have re: "unat (input_r inp) \<le> unat (input_e inp)"
    using assms(2) by (simp add: word_le_nat_alt)
  have "unat (input_r inp) + unat ?a < 2 ^ LENGTH(32)"
  proof -
    have "unat ?a \<le> unat ?b" using ab by (simp add: word_le_nat_alt)
    then have "unat (input_r inp) + unat ?a \<le> unat (input_e inp)" using b re by simp
    moreover have "unat (input_e inp) < 2 ^ LENGTH(32)" by (rule unsigned_less)
    ultimately show ?thesis by simp
  qed
  then have "unat (input_r inp + ?a) = unat (input_r inp) + unat ?a"
    by (simp only: unat_add_lem[THEN iffD1])
  then have w: "unat (input_w inp) = unat (input_r inp) + unat ?a"
    by simp
  have "unat ?a \<le> unat ?b" using ab by (simp add: word_le_nat_alt)
  then have "input_r inp \<le> input_w inp" "input_w inp \<le> input_e inp"
    using w b re by (simp_all add: word_le_nat_alt)
  then show ?thesis
    using ab by (simp add: input_inv_def INPUT_BUF_def)
qed

section \<open>The invariant of the input indices\<close>

text \<open>
  Claim C3, amended. For every reachable input buffer, before and after consoleintr
  (any values from getc, whatever the outcome of the echo) and consoleread (any \<open>n\<close>),
  the invariant holds in the arithmetic modulo \<open>2^32\<close> in which the code computes:
  \<open>w - r \<le> e - r\<close> and \<open>e - r \<le> 128\<close>. Where \<open>e\<close> has not wrapped around below
  \<open>r\<close>, this is the invariant as written, \<open>r \<le> w \<le> e\<close> and \<open>e - r \<le> 128\<close>.
\<close>

theorem input_invariant_modular:
  assumes "reach inp"
  shows "input_inv_mod inp
       \<and> input_inv_mod (fst (final (consoleintr getc inp m)))
       \<and> input_inv_mod (read_input (consoleread n inp m))
       \<and> (input_r inp \<le> input_e inp \<longrightarrow> input_inv inp)"
proof -
  have i: "input_inv_mod inp"
    using assms by (rule reach_inv_mod)
  have "input_inv_mod (fst (final (consoleintr getc inp m)))"
    using consoleintr_loop_step[OF i] by (simp add: final_consoleintr)
  moreover have "input_inv_mod (read_input (consoleread n inp m))"
    unfolding consoleread_def using consoleread_loop_step[OF i] by blast
  ultimately show ?thesis
    using i input_inv_mod_literal by blast
qed

lemma unat_of_nat_mod128: "unat ((of_nat k :: 32 word) mod 128) = k mod 128"
proof -
  have "unat ((of_nat k :: 32 word) mod 128) = (k mod 2 ^ 32) mod 128"
    by (simp add: unat_mod unat_of_nat)
  also have "\<dots> = k mod 128"
    by (rule mod_mod_cancel) simp
  finally show ?thesis .
qed

lemma lines_read_step:
  assumes "reach (lines_read k)"
  shows "reach (lines_read (Suc k))"
proof -
  let ?inp = "lines_read k"
  let ?inp1 = "(store 10 ?inp)\<lparr>input_w := input_e ?inp + 1\<rparr>"
  obtain m1 where m1: "consputc 10 DEFAULT_CONSOLE_COLOR (emit [Acquire InputLock] machine0) = Returns m1"
    using consputc_returns_default[of "emit [Acquire InputLock] machine0" 10] machine0_ok by auto
  have "input_e ?inp - input_r ?inp < INPUT_BUF"
    by (simp add: lines_read_def INPUT_BUF_def)
  then have "consoleintr_char 10 ?inp (emit [Acquire InputLock] machine0) = Returns (?inp1, emit [Wakeup] m1)"
    using m1 by (simp add: consoleintr_char_default is_edit_def stored_char_def)
  then have "consoleintr [10] ?inp machine0 = Returns (?inp1, emit [Release InputLock] (emit [Wakeup] m1))"
    by (simp add: consoleintr_def)
  then have r1: "reach ?inp1"
    using assms reach.intr by blast
  have buf: "input_buf ?inp1 = (\<lambda>i. if i < min (Suc k) 128 then 10 else 0)"
    by (rule ext) (auto simp: store_def stored_char_def lines_read_def INPUT_BUF_def unat_of_nat_mod128)
  have ne: "input_r ?inp1 \<noteq> input_w ?inp1"
    by (simp add: store_def lines_read_def)
  have "input_buf ?inp1 (unat (input_r ?inp1 mod INPUT_BUF)) = 10"
    by (simp add: store_def stored_char_def lines_read_def INPUT_BUF_def)
  then have "read_input (consoleread_loop 1 1 [] ?inp1 machine0) = ?inp1\<lparr>input_r := input_r ?inp1 + 1\<rparr>"
    using ne by (subst consoleread_loop.simps) (simp add: consoleread_exit_def Let_def)
  moreover have "?inp1\<lparr>input_r := input_r ?inp1 + 1\<rparr> = lines_read (Suc k)"
    using buf by (simp add: store_def lines_read_def)
  ultimately show ?thesis
    using reach.read[OF r1, of 1 1 "[]" machine0] by simp
qed

lemma reach_lines_read: "reach (lines_read k)"
proof (induction k)
  case 0
  have "lines_read 0 = input0"
    by (simp add: lines_read_def input0_def)
  then show ?case by (simp add: reach.boot)
next
  case (Suc k)
  then show ?case by (rule lines_read_step)
qed

lemma reach_input_wrap: "reach input_wrap"
proof -
  have "lines_read 4294967295 = input_wrap"
    by (simp add: lines_read_def input_wrap_def)
  then show ?thesis
    using reach_lines_read[of 4294967295] by simp
qed

text \<open>
  Claim C3 as written fails when the indices wrap around. After \<open>2^32 - 1\<close> empty
  lines have been typed and read, \<open>r = w = e = 0xFFFFFFFF\<close>; the invariant holds as
  written; one more character makes \<open>e = 0\<close>, below \<open>r\<close> and \<open>w\<close>.
\<close>

theorem input_invariant_wraps:
  "reach input_wrap \<and> input_inv input_wrap
   \<and> \<not> input_inv (fst (final (consoleintr [97] input_wrap machine0)))"
proof -
  obtain m1 where "consputc 97 DEFAULT_CONSOLE_COLOR (emit [Acquire InputLock] machine0) = Returns m1"
    using consputc_returns_default[of "emit [Acquire InputLock] machine0" 97] machine0_ok by auto
  then have "consoleintr [97] input_wrap machine0
      = Returns (store 97 input_wrap, emit [Release InputLock] m1)"
    by (simp add: consoleintr_def consoleintr_char_default is_edit_def stored_char_def
        input_wrap_def INPUT_BUF_def)
  then have "\<not> input_inv (fst (final (consoleintr [97] input_wrap machine0)))"
    by (simp add: input_inv_def store_def input_wrap_def)
  moreover have "input_inv input_wrap"
    by (simp add: input_inv_def input_wrap_def INPUT_BUF_def)
  ultimately show ?thesis
    using reach_input_wrap by simp
qed

theorem input_invariant_modular_witness:
  "input_inv_mod input_wrap
   \<and> input_inv_mod (fst (final (consoleintr [97] input_wrap machine0)))
   \<and> input_inv_mod (read_input (consoleread 1 input_wrap machine0))
   \<and> input_inv input_wrap"
  using input_invariant_modular [OF reach_input_wrap, of "[97]" machine0 1]
  by (simp add: input_wrap_def)

lemma word_offset_mono:
  assumes "unat (r::32 word) + 128 < 2 ^ 32" "a \<le> b" "b \<le> 128"
  shows "r + a \<le> r + b"
proof -
  have ab: "unat a \<le> unat b" "unat b \<le> 128"
    using assms(2,3) by (simp_all add: word_le_nat_alt)
  have "unat r + unat a < 2 ^ LENGTH(32)" "unat r + unat b < 2 ^ LENGTH(32)"
    using assms(1) ab by simp_all
  then have "unat (r + a) = unat r + unat a" "unat (r + b) = unat r + unat b"
    by (simp_all only: unat_add_lem[THEN iffD1])
  then show ?thesis
    using ab by (simp add: word_le_nat_alt)
qed

lemma word_offset_le:
  assumes "unat (r::32 word) + 128 < 2 ^ 32" "x - r \<le> y - r" "y - r \<le> 128"
  shows "x \<le> y"
  using word_offset_mono[OF assms] by simp

section \<open>Monotonicity of the input indices\<close>

text \<open>
  Claim C4, amended. On a reachable input buffer, one turn of the loop of consoleintr
  (any character \<open>c\<close>, any outcome of the echo) leaves \<open>r\<close> unchanged and never moves
  \<open>w\<close> backwards; it never moves \<open>e\<close> backwards either, unless \<open>c\<close> is backspace
  (\<open>C('H')\<close>, DEL) or kill-line (\<open>C('U')\<close>): these decrement \<open>e\<close>, never below \<open>w\<close>, and
  leave \<open>w\<close> unchanged. A run of the loop of consoleread leaves \<open>w\<close> and \<open>e\<close> unchanged
  and advances \<open>r\<close> by at most the \<open>w - r\<close> characters available; the EOF un-consume
  only undoes the increment of \<open>r\<close> made just before, so across the call \<open>r\<close> does not
  decrease. Distances are measured from \<open>r\<close> modulo \<open>2^32\<close>; as long as the indices
  do not wrap around (\<open>r + 128 < 2^32\<close>), this is \<open>\<le>\<close> on the indices themselves.
\<close>

theorem indices_monotone:
  assumes "reach inp"
  shows "input_r (fst (final (consoleintr_char c inp m))) = input_r inp
       \<and> input_w inp - input_r inp \<le> input_w (fst (final (consoleintr_char c inp m))) - input_r inp
       \<and> (c \<noteq> 8 \<and> c \<noteq> 0x7f \<and> c \<noteq> 21 \<longrightarrow>
            input_e inp - input_r inp \<le> input_e (fst (final (consoleintr_char c inp m))) - input_r inp)
       \<and> (c = 8 \<or> c = 0x7f \<or> c = 21 \<longrightarrow>
            input_w (fst (final (consoleintr_char c inp m))) = input_w inp
          \<and> input_w inp - input_r inp \<le> input_e (fst (final (consoleintr_char c inp m))) - input_r inp
          \<and> input_e (fst (final (consoleintr_char c inp m))) - input_r inp \<le> input_e inp - input_r inp)
       \<and> input_w (read_input (consoleread_loop target n dst inp m)) = input_w inp
       \<and> input_e (read_input (consoleread_loop target n dst inp m)) = input_e inp
       \<and> input_r (read_input (consoleread_loop target n dst inp m)) - input_r inp
            \<le> input_w inp - input_r inp
       \<and> (unat (input_r inp) + 128 < 2 ^ 32 \<longrightarrow>
            input_w inp \<le> input_w (fst (final (consoleintr_char c inp m)))
          \<and> (c \<noteq> 8 \<and> c \<noteq> 0x7f \<and> c \<noteq> 21 \<longrightarrow>
               input_e inp \<le> input_e (fst (final (consoleintr_char c inp m))))
          \<and> input_r inp \<le> input_r (read_input (consoleread_loop target n dst inp m)))"
proof -
  let ?i = "fst (final (consoleintr_char c inp m))"
  let ?o = "read_input (consoleread_loop target n dst inp m)"
  have inv: "input_inv_mod inp"
    using assms by (rule reach_inv_mod)
  note st = consoleintr_char_step[OF inv, of c m]
  note rd = consoleread_loop_step[OF inv, of target n dst m]
  have i': "input_w ?i - input_r inp \<le> input_e ?i - input_r inp" "input_e ?i - input_r inp \<le> 128"
    using st(1,2) by (simp_all add: input_inv_mod_def INPUT_BUF_def)
  have w128: "input_w inp - input_r inp \<le> 128"
    using inv by (auto simp: input_inv_mod_def INPUT_BUF_def)
  have 1: "input_r ?i = input_r inp" by (rule st(2))
  have 2: "input_w inp - input_r inp \<le> input_w ?i - input_r inp" by (rule st(3))
  have 3: "c \<noteq> 8 \<and> c \<noteq> 0x7f \<and> c \<noteq> 21 \<longrightarrow> input_e inp - input_r inp \<le> input_e ?i - input_r inp"
    using st(4) by blast
  have 4: "c = 8 \<or> c = 0x7f \<or> c = 21 \<longrightarrow>
            input_w ?i = input_w inp
          \<and> input_w inp - input_r inp \<le> input_e ?i - input_r inp
          \<and> input_e ?i - input_r inp \<le> input_e inp - input_r inp"
    using st(5) by (auto simp: erased_def)
  have 5: "input_w ?o = input_w inp" "input_e ?o = input_e inp"
    "input_r ?o - input_r inp \<le> input_w inp - input_r inp"
    using rd by simp_all
  have 6: "unat (input_r inp) + 128 < 2 ^ 32 \<longrightarrow>
            input_w inp \<le> input_w ?i
          \<and> (c \<noteq> 8 \<and> c \<noteq> 0x7f \<and> c \<noteq> 21 \<longrightarrow> input_e inp \<le> input_e ?i)
          \<and> input_r inp \<le> input_r ?o"
  proof (intro impI)
    assume nw: "unat (input_r inp) + 128 < 2 ^ 32"
    have "input_w ?i - input_r inp \<le> 128"
      using i' by (rule order_trans)
    with 2 have a: "input_w inp \<le> input_w ?i"
      by (rule word_offset_le[OF nw])
    have b: "input_e inp \<le> input_e ?i" if h: "c \<noteq> 8 \<and> c \<noteq> 0x7f \<and> c \<noteq> 21"
    proof -
      from 3 h have "input_e inp - input_r inp \<le> input_e ?i - input_r inp"
        by (rule mp)
      then show ?thesis
        using i'(2) by (rule word_offset_le[OF nw])
    qed
    have "input_r inp - input_r inp \<le> input_r ?o - input_r inp"
      by simp
    moreover have "input_r ?o - input_r inp \<le> 128"
      using 5(3) w128 by (rule order_trans)
    ultimately have c: "input_r inp \<le> input_r ?o"
      by (rule word_offset_le[OF nw])
    from a b c show "input_w inp \<le> input_w ?i
          \<and> (c \<noteq> 8 \<and> c \<noteq> 0x7f \<and> c \<noteq> 21 \<longrightarrow> input_e inp \<le> input_e ?i)
          \<and> input_r inp \<le> input_r ?o"
      by blast
  qed
  show ?thesis
    by (intro conjI) (rule 1 2 3 4 5 6)+
qed

lemma consoleintr_a: "\<exists>m1. consoleintr [97] input0 machine0 = Returns (input_a, m1)"
proof -
  obtain m1 where "consputc 97 DEFAULT_CONSOLE_COLOR (emit [Acquire InputLock] machine0) = Returns m1"
    using consputc_returns_default[of "emit [Acquire InputLock] machine0" 97] machine0_ok by auto
  then show ?thesis
    by (simp add: consoleintr_def consoleintr_char_default is_edit_def stored_char_def store_def
        input0_def input_a_def INPUT_BUF_def)
qed

lemma reach_input_a: "reach input_a"
  using consoleintr_a reach.intr[OF reach.boot] by blast

text \<open>
  Claim C4 as written fails on backspace: with one uncommitted character in the
  buffer (\<open>e = 1\<close>, \<open>w = 0\<close>), a backspace decrements \<open>e\<close> to 0. This is no EOF
  un-consume, and \<open>r\<close> is not involved.
\<close>

theorem backspace_decrements_e:
  "reach input_a \<and> input_e input_a = 1
   \<and> is_Returns (consoleintr_char 8 input_a machine0)
   \<and> input_e (fst (final (consoleintr_char 8 input_a machine0))) = 0
   \<and> input_e (fst (final (consoleintr_char 8 input_a machine0))) < input_e input_a"
proof -
  obtain m1 where "consputc BACKSPACE DEFAULT_CONSOLE_COLOR machine0 = Returns m1"
    using consputc_returns_default[OF machine0_ok] by blast
  then have "consoleintr_char 8 input_a machine0 = Returns (input_a\<lparr>input_e := 0\<rparr>, m1)"
    by (simp add: consoleintr_char_def input_a_def)
  then show ?thesis
    using reach_input_a by (simp add: input_a_def)
qed

theorem indices_monotone_witness:
  "input_r (fst (final (consoleintr_char 8 input_a machine0))) = input_r input_a
   \<and> input_w (fst (final (consoleintr_char 8 input_a machine0))) = input_w input_a
   \<and> input_e (fst (final (consoleintr_char 8 input_a machine0))) - input_r input_a
        \<le> input_e input_a - input_r input_a
   \<and> input_w input_a \<le> input_w (fst (final (consoleintr_char 8 input_a machine0)))
   \<and> input_e input_a \<le> input_e (fst (final (consoleintr_char 97 input_a machine0)))
   \<and> input_r input_a \<le> input_r (read_input (consoleread_loop 1 1 [] input_a machine0))"
  using indices_monotone [OF reach_input_a, of 8 machine0 1 1 "[]"]
    indices_monotone [OF reach_input_a, of 97 machine0 1 1 "[]"]
  by (simp add: input_a_def)

lemma quiet_char:
  fixes c inp m
  assumes rw: "input_r inp = input_w inp"
    and room: "unat (input_e inp - input_r inp) < 127"
    and c: "c \<noteq> 10" "c \<noteq> 13" "c \<noteq> 4"
  defines "inp' \<equiv> fst (final (consoleintr_char c inp m))"
  shows "input_r inp' = input_w inp'"
    and "unat (input_e inp' - input_w inp') \<le> unat (input_e inp - input_w inp) + 1"
proof -
  let ?b = "input_e inp - input_r inp"
  have b128: "?b < 128"
    using room by (simp add: word_less_nat_alt)
  have inv: "input_inv_mod inp"
    using rw b128 by (simp add: input_inv_mod_def INPUT_BUF_def)
  have "input_r inp' = input_w inp'
      \<and> unat (input_e inp' - input_w inp') \<le> unat (input_e inp - input_w inp) + 1"
  proof (cases "c = 8 \<or> c = 0x7f \<or> c = 21")
    case True
    then have "erased inp inp'"
      unfolding inp'_def by (rule consoleintr_char_step(5)[OF inv])
    then have "input_r inp' = input_r inp" "input_w inp' = input_w inp"
      "unat (input_e inp' - input_r inp) \<le> unat ?b"
      by (simp_all add: erased_def word_le_nat_alt)
    then show ?thesis
      using rw by simp
  next
    case False
    show ?thesis
    proof (cases "c = 26 \<or> c = 16 \<or> c = 0")
      case True
      then have "inp' = inp"
        unfolding inp'_def consoleintr_char_def by auto
      then show ?thesis
        using rw by simp
    next
      case nz: False
      have ne: "\<not> is_edit c" "c \<noteq> 0"
        using False nz by (simp_all add: is_edit_def)
      have sc: "stored_char c = c"
        using c by (simp add: stored_char_def)
      have "unat (?b + 1) = unat ?b + 1"
        using b128 by (rule unat_succ)
      moreover have "input_e inp + 1 - input_r inp = ?b + 1"
        by simp
      ultimately have u: "unat (input_e inp + 1 - input_r inp) = unat ?b + 1"
        by (simp only:)
      have nofull: "input_e inp + 1 \<noteq> input_r inp + INPUT_BUF"
      proof
        assume "input_e inp + 1 = input_r inp + INPUT_BUF"
        then have "input_e inp + 1 - input_r inp = 128"
          by (simp add: INPUT_BUF_def)
        then show False
          using u room by simp
      qed
      have "inp' = store c inp"
        unfolding inp'_def
        using nofull c sc b128
        by (cases "consputc c DEFAULT_CONSOLE_COLOR m")
           (simp_all add: consoleintr_char_default[OF ne] INPUT_BUF_def)
      then show ?thesis
        using rw u by (simp add: store_def)
    qed
  qed
  then show "input_r inp' = input_w inp'"
    and "unat (input_e inp' - input_w inp') \<le> unat (input_e inp - input_w inp) + 1"
    by simp_all
qed

lemma quiet_loop:
  "input_r inp = input_w inp \<Longrightarrow> unat (input_e inp - input_w inp) + length cs < 128 \<Longrightarrow>
   \<forall>c\<in>set cs. c \<noteq> 10 \<and> c \<noteq> 13 \<and> c \<noteq> 4 \<Longrightarrow>
   input_r (fst (final (consoleintr_loop cs inp m))) = input_w (fst (final (consoleintr_loop cs inp m)))"
proof (induction cs arbitrary: inp m)
  case Nil
  then show ?case by simp
next
  case (Cons c cs)
  have room: "unat (input_e inp - input_r inp) < 127"
    using Cons.prems(1,2) by simp
  have cc: "c \<noteq> 10" "c \<noteq> 13" "c \<noteq> 4"
    using Cons.prems(3) by simp_all
  note q = quiet_char[OF Cons.prems(1) room cc, of m]
  show ?case
  proof (cases "c \<ge> 0")
    case False
    then show ?thesis using Cons.prems by simp
  next
    case True
    show ?thesis
    proof (cases "consoleintr_char c inp m")
      case (Returns x)
      obtain inp1 m1 where x: "x = (inp1, m1)" by (cases x)
      have 1: "input_r inp1 = input_w inp1"
        "unat (input_e inp1 - input_w inp1) + length cs < 128"
        using q Returns x Cons.prems(2) by simp_all
      have "\<forall>c\<in>set cs. c \<noteq> 10 \<and> c \<noteq> 13 \<and> c \<noteq> 4"
        using Cons.prems(3) by simp
      from Cons.IH[OF 1 this, of m1] show ?thesis
        using True Returns x by simp
    next
      case (Spins x)
      then show ?thesis using q True by simp
    next
      case (Faults x)
      then show ?thesis using q True by simp
    qed
  qed
qed

section \<open>No data for readers before a terminator\<close>

text \<open>
  Claim C6, amended. From a buffer with no committed data (\<open>r = w\<close>) holding \<open>e - r\<close>
  uncommitted characters, feed consoleintr any sequence of characters with no newline,
  no carriage return and no EOF marker, short enough that the buffer does not fill up
  (\<open>e - r\<close> plus its length is below 128; from an empty buffer: a sequence shorter than
  the capacity). Then \<open>r = w\<close> still holds afterwards, whatever the outcome of the
  echo: readers observe no available data.
\<close>

theorem no_data_before_terminator:
  assumes "input_r inp = input_w inp"
    and "unat (input_e inp - input_r inp) + length cs < 128"
    and "\<forall>c\<in>set cs. c \<noteq> 10 \<and> c \<noteq> 13 \<and> c \<noteq> 4"
  shows "input_r (fst (final (consoleintr cs inp m)))
       = input_w (fst (final (consoleintr cs inp m)))"
proof -
  have "unat (input_e inp - input_w inp) + length cs < 128"
    using assms(1,2) by simp
  from quiet_loop[OF assms(1) this assms(3)] show ?thesis
    by (simp add: final_consoleintr)
qed

theorem no_data_before_terminator_witness:
  "input_r (fst (final (consoleintr [97, 98, 21, 99, 8] input0 machine0)))
     = input_w (fst (final (consoleintr [97, 98, 21, 99, 8] input0 machine0)))"
  using no_data_before_terminator [of input0 "[97, 98, 21, 99, 8]" machine0]
  by (simp add: input0_def)

text \<open>
  Claim C6 as written fails on a carriage return, which is neither a newline nor the
  EOF marker: consoleintr stores it as a newline and commits the line, so that
  \<open>w = 1\<close> while \<open>r = 0\<close>.
\<close>

theorem carriage_return_commits:
  "10 \<notin> set [13::int] \<and> 4 \<notin> set [13::int] \<and> length [13::int] < 128
   \<and> input_r input0 = input_w input0
   \<and> is_Returns (consoleintr [13] input0 machine0)
   \<and> input_r (fst (final (consoleintr [13] input0 machine0))) = 0
   \<and> input_w (fst (final (consoleintr [13] input0 machine0))) = 1"
proof -
  obtain m1 where "consputc 10 DEFAULT_CONSOLE_COLOR (emit [Acquire InputLock] machine0) = Returns m1"
    using consputc_returns_default[of "emit [Acquire InputLock] machine0" 10] machine0_ok by auto
  then have "consoleintr [13] input0 machine0
      = Returns ((store 13 input0)\<lparr>input_w := 1\<rparr>, emit [Release InputLock] (emit [Wakeup] m1))"
    by (simp add: consoleintr_def consoleintr_char_default is_edit_def stored_char_def
        input0_def INPUT_BUF_def)
  then show ?thesis
    by (simp add: store_def input0_def)
qed

lemma sint8_eq_iff: "sint (x::8 word) = sint (y::8 word) \<longleftrightarrow> x = y"
  by (auto dest: signed_word_eqI)

lemma sint8_10: "sint (x::8 word) = 10 \<longleftrightarrow> x = 10"
  using sint8_eq_iff[of x 10] by simp

lemma sint8_4: "sint (x::8 word) = 4 \<longleftrightarrow> x = 4"
  using sint8_eq_iff[of x 4] by simp

lemma holds_at_Cons:
  assumes "holds_at inp (x # xs)"
  shows "input_buf inp (unat (input_r inp mod INPUT_BUF)) = x"
    and "holds_at (inp\<lparr>input_r := input_r inp + 1\<rparr>) xs"
proof -
  show "input_buf inp (unat (input_r inp mod INPUT_BUF)) = x"
    using assms unfolding holds_at_def by (drule_tac x = 0 in spec) simp
  show "holds_at (inp\<lparr>input_r := input_r inp + 1\<rparr>) xs"
    unfolding holds_at_def
  proof (intro allI impI)
    fix i assume "i < length xs"
    then have "input_buf inp (unat ((input_r inp + of_nat (Suc i)) mod INPUT_BUF)) = (x # xs) ! Suc i"
      using assms unfolding holds_at_def by (drule_tac x = "Suc i" in spec) simp
    then show "input_buf (inp\<lparr>input_r := input_r inp + 1\<rparr>)
          (unat ((input_r (inp\<lparr>input_r := input_r inp + 1\<rparr>) + of_nat i) mod INPUT_BUF)) = xs ! i"
      by (simp add: ac_simps)
  qed
qed

lemma avail_pos: "0 < unat ((w::32 word) - r) \<Longrightarrow> r \<noteq> w \<and> unat (w - (r + 1)) = unat (w - r) - 1"
proof -
  assume a: "0 < unat (w - r)"
  then have nz: "w - r \<noteq> 0" by (simp add: unat_gt_0)
  have "w - (r + 1) = w - r - 1" by simp
  then have "unat (w - (r + 1)) = unat (w - r) - 1"
    using unat_pred[OF nz] by (simp only:)
  then show ?thesis using nz by auto
qed

lemma read_run:
  "holds_at inp xs \<Longrightarrow> \<forall>b\<in>set xs. b \<noteq> 10 \<and> b \<noteq> 4 \<Longrightarrow>
   length xs \<le> unat (input_w inp - input_r inp) \<Longrightarrow> int (length xs) \<le> n \<Longrightarrow>
   consoleread_loop target n dst inp m
     = consoleread_loop target (n - int (length xs)) (dst @ xs)
         (inp\<lparr>input_r := input_r inp + of_nat (length xs)\<rparr>) m"
proof (induction xs arbitrary: inp n dst)
  case Nil
  then show ?case by simp
next
  case (Cons x xs)
  let ?inp1 = "inp\<lparr>input_r := input_r inp + 1\<rparr>"
  note h = holds_at_Cons[OF Cons.prems(1)]
  have x: "x \<noteq> 10" "x \<noteq> 4"
    using Cons.prems(2) by simp_all
  have n: "0 < n"
    using Cons.prems(4) by simp
  have "0 < unat (input_w inp - input_r inp)"
    using Cons.prems(3) by simp
  note av = avail_pos[OF this]
  have 1: "consoleread_loop target n dst inp m = consoleread_loop target (n - 1) (dst @ [x]) ?inp1 m"
    using n av h(1) x by (subst consoleread_loop.simps) (simp add: Let_def sint8_10 sint8_4)
  have 2: "length xs \<le> unat (input_w ?inp1 - input_r ?inp1)"
    using Cons.prems(3) av by simp
  have 3: "\<forall>b\<in>set xs. b \<noteq> 10 \<and> b \<noteq> 4"
    using Cons.prems(2) by simp
  have 4: "int (length xs) \<le> n - 1"
    using Cons.prems(4) by simp
  have "consoleread_loop target (n - 1) (dst @ [x]) ?inp1 m
      = consoleread_loop target (n - 1 - int (length xs)) ((dst @ [x]) @ xs)
         (?inp1\<lparr>input_r := input_r ?inp1 + of_nat (length xs)\<rparr>) m"
    using h(2) 3 2 4 by (rule Cons.IH)
  then show ?case
    using 1 by (simp add: add.assoc add.commute algebra_simps)
qed

lemma sint_small: "0 \<le> n \<Longrightarrow> n < 2147483648 \<Longrightarrow> sint (word_of_int n :: 32 word) = n"
  by (simp add: signed_of_int signed_take_bit_int_eq_self)

lemma holds_at_drop:
  assumes "holds_at inp xs"
  shows "holds_at (inp\<lparr>input_r := input_r inp + of_nat j\<rparr>) (drop j xs)"
  unfolding holds_at_def
proof (intro allI impI)
  fix i assume i: "i < length (drop j xs)"
  then have "j + i < length xs" by simp
  then have "input_buf inp (unat ((input_r inp + of_nat (j + i)) mod INPUT_BUF)) = xs ! (j + i)"
    using assms unfolding holds_at_def by blast
  then show "input_buf (inp\<lparr>input_r := input_r inp + of_nat j\<rparr>)
      (unat ((input_r (inp\<lparr>input_r := input_r inp + of_nat j\<rparr>) + of_nat i) mod INPUT_BUF))
      = drop j xs ! i"
    using i by (simp add: ac_simps)
qed

lemma holds_at_take: "holds_at inp xs \<Longrightarrow> holds_at inp (take j xs)"
  by (simp add: holds_at_def)

lemma avail_after:
  assumes "j \<le> unat ((w::32 word) - r)"
  shows "unat (w - (r + of_nat j)) = unat (w - r) - j"
proof -
  have "unat (w - r) < 2 ^ LENGTH(32)" by (rule unsigned_less)
  then have j: "j < 2 ^ LENGTH(32)" using assms by simp
  then have uj: "unat (of_nat j :: 32 word) = j"
    by (simp add: unat_of_nat take_bit_nat_eq_self)
  have "of_nat j \<le> w - r"
    using assms uj by (simp add: word_le_nat_alt)
  then have "unat (w - r - of_nat j) = unat (w - r) - unat (of_nat j :: 32 word)"
    by (rule unat_sub)
  moreover have "w - (r + of_nat j) = w - r - of_nat j"
    by simp
  ultimately show ?thesis
    using uj by (simp only:)
qed

section \<open>Reading part of a line\<close>

text \<open>
  Claim C5. Let the buffer hold, from the read index on, a committed line of length
  \<open>L\<close>: \<open>L - 1\<close> bytes that are neither newline nor the EOF marker, then a newline, all
  of them below \<open>w\<close>. For \<open>0 < n < L\<close>, consoleread(n) returns \<open>n\<close> and delivers the
  first \<open>n\<close> bytes of the line; the next consoleread, asking for at least the remaining
  \<open>L - n\<close> bytes, returns \<open>L - n\<close> and delivers exactly the rest of the line, so that
  the two reads together deliver the line once, in order. \<open>ma\<close> and \<open>mb\<close> are the machine
  at the time of the two reads.
\<close>

theorem partial_line_read:
  assumes line: "line = body @ [10]" "\<forall>b\<in>set body. b \<noteq> 10 \<and> b \<noteq> 4"
    and holds: "holds_at inp line"
    and avail: "length line \<le> unat (input_w inp - input_r inp)"
    and cap: "unat (input_w inp - input_r inp) \<le> 128"
    and n: "0 < n" "n < int (length line)"
    and k: "int (length line) - n \<le> k"
  shows "consoleread n inp ma
           = ReadReturns n (take (nat n) line)
               (inp\<lparr>input_r := input_r inp + of_nat (nat n)\<rparr>)
               (emit [Iunlock, Acquire InputLock, Release InputLock, Ilock] ma)
       \<and> consoleread k (inp\<lparr>input_r := input_r inp + of_nat (nat n)\<rparr>) mb
           = ReadReturns (int (length line) - n) (drop (nat n) line)
               (inp\<lparr>input_r := input_r inp + of_nat (length line)\<rparr>)
               (emit [Iunlock, Acquire InputLock, Release InputLock, Ilock] mb)
       \<and> take (nat n) line @ drop (nat n) line = line"
proof -
  define j where "j = nat n"
  define L where "L = length line"
  have jn: "int j = n" "0 < j" "j < L" "j \<le> length body" "L = Suc (length body)" "L \<le> 128"
    using n line(1) avail cap by (simp_all add: j_def L_def)
  let ?inp1 = "inp\<lparr>input_r := input_r inp + of_nat j\<rparr>"
  let ?inp2 = "inp\<lparr>input_r := input_r inp + of_nat (length body)\<rparr>"
  let ?inp3 = "inp\<lparr>input_r := input_r inp + of_nat L\<rparr>"
  have tk: "take j line = take j body" and dr: "drop j line = drop j body @ [10]"
    using jn line(1) by simp_all
  \<comment> \<open>the first read\<close>
  have h1: "holds_at inp (take j body)"
    using holds_at_take[OF holds, of j] tk by simp
  have s1: "\<forall>b\<in>set (take j body). b \<noteq> 10 \<and> b \<noteq> 4"
    using line(2) by (meson in_set_takeD)
  have l1: "length (take j body) = j"
    using jn by simp
  have a1: "length (take j body) \<le> unat (input_w inp - input_r inp)"
    using avail jn by (simp add: L_def)
  have "consoleread_loop (word_of_int n) n [] inp (emit [Iunlock, Acquire InputLock] ma)
      = consoleread_loop (word_of_int n) (n - int (length (take j body))) ([] @ take j body)
          (inp\<lparr>input_r := input_r inp + of_nat (length (take j body))\<rparr>)
          (emit [Iunlock, Acquire InputLock] ma)"
    using h1 s1 a1 by (rule read_run) (simp add: l1 jn)
  also have "\<dots> = consoleread_loop (word_of_int n) 0 (take j line) ?inp1
          (emit [Iunlock, Acquire InputLock] ma)"
    by (simp add: l1 jn tk)
  also have "\<dots> = ReadReturns (sint (word_of_int n :: 32 word)) (take j line) ?inp1
          (emit [Iunlock, Acquire InputLock, Release InputLock, Ilock] ma)"
    by (subst consoleread_loop.simps) (simp add: consoleread_exit_def emit_emit)
  also have "sint (word_of_int n :: 32 word) = n"
    using n jn by (intro sint_small) (simp_all add: L_def)
  finally have first: "consoleread n inp ma
      = ReadReturns n (take j line) ?inp1 (emit [Iunlock, Acquire InputLock, Release InputLock, Ilock] ma)"
    by (simp add: consoleread_def)
  \<comment> \<open>the second read\<close>
  have h2: "holds_at ?inp1 (drop j body)"
    using holds_at_take[OF holds_at_drop[OF holds, of j], of "length body - j"] dr by simp
  have s2: "\<forall>b\<in>set (drop j body). b \<noteq> 10 \<and> b \<noteq> 4"
    using line(2) by (meson in_set_dropD)
  have l2: "length (drop j body) = length body - j"
    by simp
  have av1: "unat (input_w inp - (input_r inp + of_nat j)) = unat (input_w inp - input_r inp) - j"
    using avail jn by (intro avail_after) (simp add: L_def)
  have a2: "length (drop j body) \<le> unat (input_w ?inp1 - input_r ?inp1)"
    using avail jn av1 by (simp add: L_def)
  have k2: "int (length (drop j body)) \<le> k"
    using k jn by (simp add: L_def)
  have r2: "?inp1\<lparr>input_r := input_r ?inp1 + of_nat (length body - j)\<rparr> = ?inp2"
    using jn by (simp add: add.assoc flip: of_nat_add)
  have "consoleread_loop (word_of_int k) k [] ?inp1 (emit [Iunlock, Acquire InputLock] mb)
      = consoleread_loop (word_of_int k) (k - int (length (drop j body))) ([] @ drop j body)
          (?inp1\<lparr>input_r := input_r ?inp1 + of_nat (length (drop j body))\<rparr>)
          (emit [Iunlock, Acquire InputLock] mb)"
    using h2 s2 a2 k2 by (rule read_run)
  then have run2: "consoleread_loop (word_of_int k) k [] ?inp1 (emit [Iunlock, Acquire InputLock] mb)
      = consoleread_loop (word_of_int k) (k - int (length body - j)) (drop j body) ?inp2
          (emit [Iunlock, Acquire InputLock] mb)"
    by (simp only: l2 append_Nil r2)
  \<comment> \<open>the newline that ends the line\<close>
  have "holds_at ?inp2 (drop (length body) line)"
    using holds by (rule holds_at_drop)
  then have nl: "input_buf ?inp2 (unat (input_r ?inp2 mod INPUT_BUF)) = 10"
    using line(1) by (auto dest: holds_at_Cons(1))
  have "unat (input_w inp - (input_r inp + of_nat (length body)))
      = unat (input_w inp - input_r inp) - length body"
    using avail jn by (intro avail_after) (simp add: L_def)
  then have "0 < unat (input_w ?inp2 - input_r ?inp2)"
    using avail jn by (simp add: L_def)
  then have ne: "input_r ?inp2 \<noteq> input_w ?inp2"
    using avail_pos by blast
  have kpos: "0 < k - int (length body - j)"
    using k jn by (simp add: L_def)
  have r3: "?inp2\<lparr>input_r := input_r ?inp2 + 1\<rparr> = ?inp3"
    using jn by (simp add: add.assoc)
  have "consoleread_loop (word_of_int k) (k - int (length body - j)) (drop j body) ?inp2
          (emit [Iunlock, Acquire InputLock] mb)
      = consoleread_exit (word_of_int k) (k - int (length body - j) - 1) (drop j body @ [10])
          (?inp2\<lparr>input_r := input_r ?inp2 + 1\<rparr>) (emit [Iunlock, Acquire InputLock] mb)"
    using kpos ne nl by (subst consoleread_loop.simps) (simp add: Let_def)
  also have "\<dots> = ReadReturns (sint (word_of_int k - word_of_int (k - int (length body - j) - 1) :: 32 word))
          (drop j line) ?inp3 (emit [Iunlock, Acquire InputLock, Release InputLock, Ilock] mb)"
    by (simp only: r3 dr consoleread_exit_def emit_emit append.simps)
  also have "(word_of_int k - word_of_int (k - int (length body - j) - 1) :: 32 word)
      = word_of_int (int L - n)"
  proof -
    have "k - (k - int (length body - j) - 1) = int L - n"
      using jn by simp
    then show ?thesis
      by (simp only: wi_hom_sub)
  qed
  also have "sint (word_of_int (int L - n) :: 32 word) = int L - n"
    using jn by (intro sint_small) simp_all
  finally have second: "consoleread k ?inp1 mb
      = ReadReturns (int L - n) (drop j line) ?inp3
          (emit [Iunlock, Acquire InputLock, Release InputLock, Ilock] mb)"
    using run2 by (simp add: consoleread_def)
  show ?thesis
    using first second by (simp add: j_def L_def)
qed

lemma holds_at_abc: "holds_at input_abc [97, 98, 99, 10]"
  unfolding holds_at_def
proof (intro allI impI)
  fix i :: nat
  assume "i < length [97, 98, 99, 10 :: 8 word]"
  then consider "i = 0" | "i = 1" | "i = 2" | "i = 3"
    by (auto simp: less_Suc_eq numeral_eq_Suc)
  then show "input_buf input_abc (unat ((input_r input_abc + of_nat i) mod INPUT_BUF))
      = [97, 98, 99, 10] ! i"
    by cases (simp_all add: input_abc_def INPUT_BUF_def)
qed

theorem partial_line_read_witness:
  "consoleread 2 input_abc machine0
     = ReadReturns 2 [97, 98] (input_abc\<lparr>input_r := 2\<rparr>)
         (emit [Iunlock, Acquire InputLock, Release InputLock, Ilock] machine0)
   \<and> consoleread 10 (input_abc\<lparr>input_r := 2\<rparr>) machine0
     = ReadReturns 2 [99, 10] (input_abc\<lparr>input_r := 4\<rparr>)
         (emit [Iunlock, Acquire InputLock, Release InputLock, Ilock] machine0)"
  using partial_line_read [of "[97, 98, 99, 10]" "[97, 98, 99]" input_abc 2 10 machine0 machine0]
    holds_at_abc
  by (simp add: input_abc_def)

lemma byte_and: "sint (b::8 word) AND 0xff = uint b"
proof -
  have "sint b AND 0xff = take_bit 8 (sint b)"
    by (simp add: take_bit_eq_mask mask_eq_exp_minus_1)
  also have "\<dots> = uint b"
    by (simp add: uint_sint)
  finally show ?thesis .
qed

lemma byte_char: "sint (b::8 word) AND 0xff \<noteq> BACKSPACE"
  using uint_bounded[of b] by (simp add: byte_and BACKSPACE_def)

lemma byte_newline: "sint (b::8 word) AND 0xff = 10 \<longleftrightarrow> b = 10"
  using word_uint_eq_iff[of b 10] by (simp add: byte_and)

lemma consputc_store:
  assumes "panicked m = 0" "cursor m = int p" "p + 1 < 1920" "c \<noteq> 10" "c \<noteq> BACKSPACE"
  shows "\<exists>m'. consputc c color m = Returns m' \<and> cursor m' = int p + 1
     \<and> crt m' = (crt m)(p := cga_cell c color, Suc p := 0x0720)
     \<and> scrolls m' = scrolls m \<and> panicked m' = 0"
proof -
  have adv: "cga_advance c (cursor (uartputc c m)) = int p + 1"
    using assms by (simp add: cga_advance_def uartputc_def BACKSPACE_def)
  then have "cgaputc c color (uartputc c m)
      = Returns (cga_setpos (int p + 1) (cga_stored c color (uartputc c m)))"
    using assms(3) cgaputc_noscroll[of c "uartputc c m" color] by simp
  then show ?thesis
    using assms
    by (simp add: consputc_def cursor_cga_setpos cga_stored_def uartputc_def BACKSPACE_def
        nat_add_distrib)
qed

lemma consputc_store_scroll:
  assumes "panicked m = 0" "cursor m = 1919" "c \<noteq> 10" "c \<noteq> BACKSPACE"
  shows "\<exists>m'. consputc c color m = Returns m' \<and> cursor m' = 1840
     \<and> crt m' = scrolled ((crt m)(1919 := cga_cell c color))
     \<and> scrolls m' = scrolls m + 1 \<and> panicked m' = 0"
proof -
  have adv: "cga_advance c (cursor (uartputc c m)) = 1920"
    using assms by (simp add: cga_advance_def uartputc_def BACKSPACE_def)
  then have "cgaputc c color (uartputc c m)
      = Returns (cga_setpos 1840 (snd (final (cga_scroll 1920 (cga_stored c color (uartputc c m))))))"
    by (simp add: cgaputc_eq cga_scroll_eq)
  then show ?thesis
    using assms
    by (auto simp: consputc_def cursor_cga_setpos cga_scroll_eq cga_stored_def uartputc_def
        BACKSPACE_def scrolled_def fun_eq_iff)
qed

lemma typed_Nil: "typed p [] scr = scr"
  by (rule ext) (auto simp: typed_def)

lemma typed_Cons:
  "typed (Suc p) bs (scr(p := cell_of b, Suc p := 0x0720)) = typed p (b # bs) scr"
proof (rule ext)
  fix i
  consider "i < p" | "i = p" | "p < i" "i < Suc p + length bs" | "i = Suc p + length bs"
    | "Suc p + length bs < i"
    by linarith
  then show "typed (Suc p) bs (scr(p := cell_of b, Suc p := 0x0720)) i = typed p (b # bs) scr i"
  proof cases
    case 3
    then obtain d where "i = Suc p + d" "d < length bs"
      by (metis add_Suc less_iff_Suc_add nat_add_left_cancel_less)
    then show ?thesis by (simp add: typed_def)
  qed (auto simp: typed_def)
qed

lemma write_run:
  "panicked m = 0 \<Longrightarrow> cursor m = int p \<Longrightarrow> p + length bs < 1920 \<Longrightarrow> 10 \<notin> set bs \<Longrightarrow>
   \<exists>m'. consolewrite_loop bs m = Returns m' \<and> cursor m' = int (p + length bs)
     \<and> crt m' = typed p bs (crt m) \<and> scrolls m' = scrolls m \<and> panicked m' = 0"
proof (induction bs arbitrary: m p)
  case Nil
  then show ?case by (simp add: typed_Nil)
next
  case (Cons b bs)
  have c: "sint b AND 0xff \<noteq> 10" "sint b AND 0xff \<noteq> BACKSPACE"
    using Cons.prems(4) by (simp_all add: byte_newline byte_char)
  have "p + 1 < 1920"
    using Cons.prems(3) by simp
  from consputc_store[OF Cons.prems(1,2) this c, of DEFAULT_CONSOLE_COLOR]
  obtain m1 where m1: "consputc (sint b AND 0xff) DEFAULT_CONSOLE_COLOR m = Returns m1"
    "cursor m1 = int (Suc p)" "crt m1 = (crt m)(p := cell_of b, Suc p := 0x0720)"
    "scrolls m1 = scrolls m" "panicked m1 = 0"
    by (auto simp: cell_of_def)
  have "Suc p + length bs < 1920" "10 \<notin> set bs"
    using Cons.prems(3,4) by simp_all
  from Cons.IH[OF m1(5) m1(2) this]
  obtain m' where m': "consolewrite_loop bs m1 = Returns m'" "cursor m' = int (Suc p + length bs)"
    "crt m' = typed (Suc p) bs (crt m1)" "scrolls m' = scrolls m1" "panicked m' = 0"
    by blast
  show ?case
    using m1 m' by (simp add: typed_Cons)
qed

lemma consolewrite_loop_append:
  "consolewrite_loop (xs @ ys) m =
     (case consolewrite_loop xs m of
        Returns m1 \<Rightarrow> consolewrite_loop ys m1
      | Spins m1 \<Rightarrow> Spins m1
      | Faults m1 \<Rightarrow> Faults m1)"
  by (induction xs arbitrary: m) (auto split: outcome.splits)

lemma write_to_scroll:
  assumes "panicked m = 0" "cursor m = int p" "p + length bs = 1919" "10 \<notin> set bs" "b \<noteq> 10"
  shows "\<exists>m'. consolewrite_loop (bs @ [b]) m = Returns m' \<and> cursor m' = 1840
     \<and> crt m' = scrolled ((typed p bs (crt m))(1919 := cell_of b))
     \<and> scrolls m' = scrolls m + 1 \<and> panicked m' = 0"
proof -
  have "p + length bs < 1920"
    using assms(3) by simp
  from write_run[OF assms(1,2) this assms(4)]
  obtain m1 where m1: "consolewrite_loop bs m = Returns m1" "cursor m1 = int (p + length bs)"
    "crt m1 = typed p bs (crt m)" "scrolls m1 = scrolls m" "panicked m1 = 0"
    by blast
  have c: "sint b AND 0xff \<noteq> 10" "sint b AND 0xff \<noteq> BACKSPACE"
    using assms(5) by (simp_all add: byte_newline byte_char)
  have "cursor m1 = 1919"
    using m1(2) assms(3) by simp
  from consputc_store_scroll[OF m1(5) this c, of DEFAULT_CONSOLE_COLOR]
  obtain m' where "consputc (sint b AND 0xff) DEFAULT_CONSOLE_COLOR m1 = Returns m'"
    "cursor m' = 1840" "crt m' = scrolled ((crt m1)(1919 := cell_of b))"
    "scrolls m' = scrolls m1 + 1" "panicked m' = 0"
    by (auto simp: cell_of_def)
  then show ?thesis
    using m1 by (simp add: consolewrite_loop_append)
qed

lemma final_consolewrite:
  "scrolls (final (consolewrite bs m)) = scrolls (final (consolewrite_loop bs (emit [Iunlock, Acquire ConsLock] m)))"
  "crt (final (consolewrite bs m)) = crt (final (consolewrite_loop bs (emit [Iunlock, Acquire ConsLock] m)))"
  "cursor (final (consolewrite bs m)) = cursor (final (consolewrite_loop bs (emit [Iunlock, Acquire ConsLock] m)))"
  "is_Returns (consolewrite bs m) = is_Returns (consolewrite_loop bs (emit [Iunlock, Acquire ConsLock] m))"
  unfolding consolewrite_def
  by (cases "consolewrite_loop bs (emit [Iunlock, Acquire ConsLock] m)"; simp)+

section \<open>Scrolling\<close>

text \<open>
  Claim C2, amended. cgaputc scrolls as soon as the cursor reaches row 24, so it uses
  rows 0..23 of the 25. On a machine that has not panicked, with the cursor at offset
  0, writing \<open>80 * 24 = 1920\<close> bytes other than newline through consolewrite returns
  and triggers exactly one scroll, at the last byte: no shorter prefix scrolls. Before
  that last byte, cell \<open>i\<close> holds byte \<open>i\<close>; afterwards cell \<open>i\<close> holds byte \<open>i + 80\<close>
  for every cell of rows 0..22: each of the rows 1..23 has moved up by one row, so the
  bottom row before the scroll is the row second from bottom after it. Row 23 is
  cleared (zero cells) and holds the caret \<open>' ' | 0x0700\<close> at its start, where the
  cursor is.
\<close>

theorem one_scroll_after_24_rows:
  assumes "panicked m = 0" and "cursor m = 0" and "length bs = 80 * 24" and "10 \<notin> set bs"
  shows "is_Returns (consolewrite bs m)
       \<and> scrolls (final (consolewrite bs m)) = scrolls m + 1
       \<and> (\<forall>n<length bs. scrolls (final (consolewrite (take n bs) m)) = scrolls m)
       \<and> (\<forall>i<length bs - 1. crt (final (consolewrite (butlast bs) m)) i = cell_of (bs ! i))
       \<and> cursor (final (consolewrite bs m)) = 80 * 23
       \<and> (\<forall>i<80 * 23. crt (final (consolewrite bs m)) i = cell_of (bs ! (i + 80)))
       \<and> crt (final (consolewrite bs m)) (80 * 23) = 0x0720
       \<and> (\<forall>i. 80 * 23 < i \<and> i < 80 * 24 \<longrightarrow> crt (final (consolewrite bs m)) i = 0)"
proof -
  let ?m0 = "emit [Iunlock, Acquire ConsLock] m"
  have m0: "panicked ?m0 = 0" "cursor ?m0 = int 0" "scrolls ?m0 = scrolls m"
    using assms by simp_all
  have ne: "bs \<noteq> []"
    using assms(3) by auto
  then have bs: "bs = butlast bs @ [last bs]"
    by simp
  have "last bs \<in> set bs"
    using ne by (rule last_in_set)
  then have l: "0 + length (butlast bs) = 1919" "10 \<notin> set (butlast bs)" "last bs \<noteq> 10"
    using assms(3,4) by (auto dest: in_set_butlastD)
  from write_to_scroll[OF m0(1,2) l]
  obtain m' where m': "consolewrite_loop bs ?m0 = Returns m'" "cursor m' = 1840"
    "crt m' = scrolled ((typed 0 (butlast bs) (crt ?m0))(1919 := cell_of (last bs)))"
    "scrolls m' = scrolls ?m0 + 1"
    using bs by auto
  have 1: "is_Returns (consolewrite bs m)"
    using m' by (simp add: final_consolewrite)
  have 2: "scrolls (final (consolewrite bs m)) = scrolls m + 1"
    using m' by (simp add: final_consolewrite)
  have 3: "\<forall>n<length bs. scrolls (final (consolewrite (take n bs) m)) = scrolls m"
  proof (intro allI impI)
    fix n assume "n < length bs"
    then have "0 + length (take n bs) < 1920" "10 \<notin> set (take n bs)"
      using assms(3,4) by (auto dest: in_set_takeD)
    from write_run[OF m0(1,2) this]
    show "scrolls (final (consolewrite (take n bs) m)) = scrolls m"
      by (auto simp: final_consolewrite)
  qed
  have 4: "\<forall>i<length bs - 1. crt (final (consolewrite (butlast bs) m)) i = cell_of (bs ! i)"
  proof (intro allI impI)
    fix i assume i: "i < length bs - 1"
    have "0 + length (butlast bs) < 1920"
      using l(1) by simp
    from write_run[OF m0(1,2) this l(2)]
    have "crt (final (consolewrite (butlast bs) m)) = typed 0 (butlast bs) (crt ?m0)"
      by (auto simp: final_consolewrite)
    then show "crt (final (consolewrite (butlast bs) m)) i = cell_of (bs ! i)"
      using i by (simp add: typed_def nth_butlast)
  qed
  have 5: "cursor (final (consolewrite bs m)) = 80 * 23"
    using m' by (simp add: final_consolewrite)
  have c: "crt (final (consolewrite bs m))
      = scrolled ((typed 0 (butlast bs) (crt ?m0))(1919 := cell_of (last bs)))"
    using m' by (simp add: final_consolewrite)
  have 6: "\<forall>i<80 * 23. crt (final (consolewrite bs m)) i = cell_of (bs ! (i + 80))"
  proof (intro allI impI)
    fix i :: nat assume i: "i < 80 * 23"
    show "crt (final (consolewrite bs m)) i = cell_of (bs ! (i + 80))"
    proof (cases "i = 1839")
      case True
      then have "bs ! (i + 80) = last bs"
        using assms(3) ne by (simp add: last_conv_nth)
      then show ?thesis
        using True by (simp add: c scrolled_def)
    next
      case False
      then have "i + 80 < length (butlast bs)"
        using i l(1) by simp
      then show ?thesis
        using i False by (simp add: c scrolled_def typed_def nth_butlast)
    qed
  qed
  have 7: "crt (final (consolewrite bs m)) (80 * 23) = 0x0720"
    by (simp add: c scrolled_def)
  have 8: "\<forall>i. 80 * 23 < i \<and> i < 80 * 24 \<longrightarrow> crt (final (consolewrite bs m)) i = 0"
    by (simp add: c scrolled_def)
  show ?thesis
    by (intro conjI) (rule 1 2 3 4 5 6 7 8)+
qed

lemma replicate_snoc: "replicate (Suc n) x = replicate n x @ [x]"
  by (simp add: replicate_append_same)

lemma replicate_1920: "replicate 1920 x = replicate 1919 x @ [x]"
  using replicate_snoc[of 1919 x] by simp

lemma replicate_80: "replicate 80 x = replicate 79 x @ [x]"
  using replicate_snoc[of 79 x] by simp

lemma replicate_2001: "replicate 2001 x = (replicate 1919 x @ [x]) @ (replicate 79 x @ [x]) @ [x]"
proof -
  have "replicate 2001 x = replicate 1920 x @ replicate 80 x @ replicate 1 x"
    using replicate_add[of 1920 81 x] replicate_add[of 80 1 x] by simp
  then show ?thesis
    by (simp only: replicate_1920 replicate_80) simp
qed

lemma cell_of_a: "cell_of 97 = 0x0761"
  by (simp add: cell_of_def cga_cell_def DEFAULT_CONSOLE_COLOR_def)

lemma machine0_screen: "panicked machine0 = 0" "cursor machine0 = 0" "scrolls machine0 = 0"
  "crt machine0 = (\<lambda>i. 0x0720)"
  by (simp_all add: machine0_def cursor_def)

theorem one_scroll_after_24_rows_witness:
  "is_Returns (consolewrite (replicate 1920 97) machine0)
   \<and> scrolls (final (consolewrite (replicate 1920 97) machine0)) = 1
   \<and> scrolls (final (consolewrite (take 1919 (replicate 1920 97)) machine0)) = 0
   \<and> crt (final (consolewrite (butlast (replicate 1920 97)) machine0)) 1918 = 0x0761
   \<and> cursor (final (consolewrite (replicate 1920 97) machine0)) = 1840
   \<and> crt (final (consolewrite (replicate 1920 97) machine0)) 1839 = 0x0761
   \<and> crt (final (consolewrite (replicate 1920 97) machine0)) 1840 = 0x0720
   \<and> crt (final (consolewrite (replicate 1920 97) machine0)) 1919 = 0"
proof -
  have h: "length (replicate 1920 (97::8 word)) = 80 * 24" "10 \<notin> set (replicate 1920 (97::8 word))"
    by simp_all
  note t = one_scroll_after_24_rows [OF machine0_screen(1,2) h]
  have "scrolls (final (consolewrite (take 1919 (replicate 1920 97)) machine0)) = scrolls machine0"
    using t by simp
  moreover have "crt (final (consolewrite (butlast (replicate 1920 97)) machine0)) 1918
      = cell_of (replicate 1920 97 ! 1918)"
    using t by simp
  moreover have "crt (final (consolewrite (replicate 1920 97) machine0)) 1839
      = cell_of (replicate 1920 97 ! (1839 + 80))"
    using t by simp
  moreover have "crt (final (consolewrite (replicate 1920 97) machine0)) 1919 = 0"
    using t by simp
  ultimately show ?thesis
    using t by (simp add: cell_of_a machine0_screen)
qed

text \<open>
  Claim C2 as written fails: \<open>80 * 25 + 1 = 2001\<close> bytes trigger two scrolls, after the
  1920th and after the 2000th byte. Nor is the row second from bottom before the
  scroll the bottom row after it, whether the bottom row is taken to be row 23, the
  last one cgaputc writes to, or row 24: before the first scroll (1919 bytes written)
  rows 22 and 23 hold the bytes written; after it (1920 bytes written) row 23 is
  cleared and row 24 still holds what it held at the start.
\<close>

theorem two_scrolls_after_2001:
  "length (replicate 2001 (97::8 word)) = 80 * 25 + 1
   \<and> 10 \<notin> set (replicate 2001 (97::8 word))
   \<and> cursor machine0 = 0
   \<and> is_Returns (consolewrite (replicate 2001 97) machine0)
   \<and> scrolls (final (consolewrite (replicate 2001 97) machine0)) = 2
   \<and> crt (final (consolewrite (replicate 1919 97) machine0)) 1770 = 0x0761
   \<and> crt (final (consolewrite (replicate 1919 97) machine0)) 1850 = 0x0761
   \<and> crt (final (consolewrite (replicate 1920 97) machine0)) 1850 = 0
   \<and> crt (final (consolewrite (replicate 1920 97) machine0)) 1930 = 0x0720"
proof -
  let ?m0 = "emit [Iunlock, Acquire ConsLock] machine0"
  have m0: "panicked ?m0 = 0" "cursor ?m0 = int 0" "scrolls ?m0 = 0" "crt ?m0 = (\<lambda>i. 0x0720)"
    by (simp_all add: machine0_screen)
  \<comment> \<open>the first 1920 bytes\<close>
  have "0 + length (replicate 1919 (97::8 word)) = 1919" "10 \<notin> set (replicate 1919 (97::8 word))"
    "(97::8 word) \<noteq> 10"
    by simp_all
  from write_to_scroll[OF m0(1,2) this]
  obtain m1 where m1: "consolewrite_loop (replicate 1919 97 @ [97]) ?m0 = Returns m1"
    "cursor m1 = int 1840" "scrolls m1 = 1" "panicked m1 = 0"
    "crt m1 = scrolled ((typed 0 (replicate 1919 97) (crt ?m0))(1919 := cell_of 97))"
    using m0(3) by auto
  \<comment> \<open>the next 80 bytes\<close>
  have "1840 + length (replicate 79 (97::8 word)) = 1919" "10 \<notin> set (replicate 79 (97::8 word))"
    "(97::8 word) \<noteq> 10"
    by simp_all
  from write_to_scroll[OF m1(4,2) this]
  obtain m2 where m2: "consolewrite_loop (replicate 79 97 @ [97]) m1 = Returns m2"
    "cursor m2 = int 1840" "scrolls m2 = 2" "panicked m2 = 0"
    using m1(3) by auto
  \<comment> \<open>the last byte\<close>
  have "1840 + length [97::8 word] < 1920" "10 \<notin> set [97::8 word]"
    by simp_all
  from write_run[OF m2(4,2) this]
  obtain m3 where m3: "consolewrite_loop [97] m2 = Returns m3" "scrolls m3 = 2"
    using m2(3) by auto
  have "replicate 2001 (97::8 word)
      = (replicate 1919 97 @ [97]) @ (replicate 79 97 @ [97]) @ [97]"
    by (rule replicate_2001)
  then have "consolewrite_loop (replicate 2001 97) ?m0 = Returns m3"
    using m1(1) m2(1) m3(1) by (simp only: consolewrite_loop_append outcome.case)
  then have a: "is_Returns (consolewrite (replicate 2001 97) machine0)"
    "scrolls (final (consolewrite (replicate 2001 97) machine0)) = 2"
    using m3(2) by (simp_all add: final_consolewrite)
  \<comment> \<open>the screen before and after the first scroll\<close>
  have "0 + length (replicate 1919 (97::8 word)) < 1920" "10 \<notin> set (replicate 1919 (97::8 word))"
    by simp_all
  from write_run[OF m0(1,2) this]
  have "crt (final (consolewrite (replicate 1919 97) machine0)) = typed 0 (replicate 1919 97) (crt ?m0)"
    by (auto simp: final_consolewrite)
  then have b: "crt (final (consolewrite (replicate 1919 97) machine0)) 1770 = 0x0761"
    "crt (final (consolewrite (replicate 1919 97) machine0)) 1850 = 0x0761"
    by (simp_all add: typed_def cell_of_a)
  have "replicate 1920 (97::8 word) = replicate 1919 97 @ [97]"
    by (rule replicate_1920)
  then have "crt (final (consolewrite (replicate 1920 97) machine0)) = crt m1"
    using m1(1) by (simp add: final_consolewrite)
  then have c: "crt (final (consolewrite (replicate 1920 97) machine0)) 1850 = 0"
    "crt (final (consolewrite (replicate 1920 97) machine0)) 1930 = 0x0720"
    by (simp_all add: m1(5) scrolled_def typed_def machine0_screen)
  show ?thesis
    using a b c by (simp add: machine0_screen)
qed

lemma cgaputc_panicked: "panicked (final (cgaputc c color m)) = panicked m"
  by (simp add: cgaputc_eq cga_scroll_def Let_def)

lemma consputc_panicked: "panicked (final (consputc c color m)) = panicked m"
  by (simp add: consputc_def cgaputc_panicked uartputc_def Let_def)

lemma then_do_panicked:
  assumes "\<And>m1. panicked (final (f m1)) = panicked m1"
  shows "panicked (final (then_do x f)) = panicked (final x)"
  using assms by (cases x) (simp_all add: then_do_def)

lemma consputc_str_panicked: "panicked (final (consputc_str bs color m)) = panicked m"
  by (induction bs arbitrary: m) (simp_all add: then_do_panicked consputc_panicked)

lemma printint_out_panicked: "panicked (final (printint_out bs color m)) = panicked m"
  by (induction bs arbitrary: m) (simp_all add: then_do_panicked consputc_panicked)

lemma printint_panicked: "panicked (final (printint xx base sign color m)) = panicked m"
  by (simp add: printint_def Let_def printint_out_panicked split: option.split
      del: printint_out.simps)

lemma printptr_loop_panicked: "panicked (final (printptr_loop k x color m)) = panicked m"
  by (induction k arbitrary: x m) (simp_all add: Let_def then_do_panicked consputc_panicked)

lemma printptr_panicked: "panicked (final (printptr x color m)) = panicked m"
  by (simp add: printptr_def printptr_loop_panicked)

lemma cprintf_switch_panicked: "panicked (final (fst (cprintf_switch c ap m))) = panicked m"
  unfolding cprintf_switch_def
  by (simp add: Let_def consputc_panicked printint_panicked printptr_panicked
        consputc_str_panicked then_do_panicked
        split: list.split arg.split
        del: consputc_str.simps)

lemma cprintf_loop_panicked: "panicked (final (cprintf_loop fmt ap m)) = panicked m"
proof (induction fmt ap m rule: cprintf_loop.induct)
  case (1 ap m)
  then show ?case by simp
next
  case (2 f ap m)
  then show ?case by (simp add: Let_def consputc_panicked)
next
  case (3 f d fs ap m)
  let ?c = "sint f AND 0xff" and ?e = "sint d AND 0xff"
  consider "?c = 0" | "?c \<noteq> 0" "?c \<noteq> 37" | "?c = 37" "?e = 0" | "?c = 37" "?e \<noteq> 0"
    by blast
  then show ?case
  proof cases
    case 1
    then show ?thesis by simp
  next
    case 2
    then show ?thesis
      using "3.IH"(1)[OF refl] by (simp add: then_do_panicked consputc_panicked)
  next
    case 3
    then show ?thesis by simp
  next
    case 4
    then show ?thesis
      using "3.IH"(2)[OF refl _ _ refl] by (simp add: Let_def then_do_panicked cprintf_switch_panicked)
  qed
qed

lemma cprintf_fmt_panicked: "panicked (final (cprintf_fmt fmt ap m)) = panicked m"
  by (simp add: cprintf_fmt_def Let_def then_do_panicked cprintf_loop_panicked)

lemma panic_stack_panicked: "panicked (final (panic_stack i pcs m)) = panicked m"
  by (induction pcs arbitrary: i m) (simp_all add: then_do_panicked cprintf_fmt_panicked)

lemma panic_head_panicked: "panicked (final (panic_head env m)) = panicked m"
  by (simp add: panic_head_def cprintf_fmt_panicked)

lemma panic_tail_panicked:
  "panicked (final (panic_tail env m)) = panicked m \<or> panicked (final (panic_tail env m)) = 1"
proof -
  let ?x = "then_do (cprintf_fmt ([10] @ bytes ''STACK:'' @ [10]) ([] :: 'a word arg list) m)
          (\<lambda>m1. then_do (panic_stack 0 (callerpcs env) (emit [Getcallerpcs] m1))
             (\<lambda>m2. cprintf_fmt (bytes ''HLT'' @ [10]) ([] :: 'a word arg list) m2))"
  have "panicked (final ?x) = panicked m"
    by (simp add: then_do_panicked cprintf_fmt_panicked panic_stack_panicked)
  then show ?thesis
    unfolding panic_tail_def by (cases ?x) simp_all
qed

lemma then_do_nonzero:
  assumes "panicked (final x) \<noteq> 0"
    and "\<And>m1. panicked m1 \<noteq> 0 \<Longrightarrow> panicked (final (f m1)) \<noteq> 0"
  shows "panicked (final (then_do x f)) \<noteq> 0"
  using assms by (cases x) (simp_all add: then_do_def)

lemma panic_tail_nonzero:
  assumes "panicked m \<noteq> 0"
  shows "panicked (final (panic_tail env m)) \<noteq> 0"
  using panic_tail_panicked[of env m] assms by auto

lemma panic_str_panicked:
  assumes "panicked m \<noteq> 0"
  shows "panicked (final (panic_str env s m)) \<noteq> 0"
  unfolding panic_str_def
proof (rule then_do_nonzero)
  show "panicked (final (panic_head env m)) \<noteq> 0"
    using assms by (simp add: panic_head_panicked)
next
  fix m1 :: machine
  assume m1: "panicked m1 \<noteq> 0"
  show "panicked (final (then_do (cprintf_fmt s ([] :: 'a word arg list) m1) (panic_tail env))) \<noteq> 0"
  proof (rule then_do_nonzero)
    show "panicked (final (cprintf_fmt s ([] :: 'a word arg list) m1)) \<noteq> 0"
      using m1 by (simp add: cprintf_fmt_panicked)
  qed (rule panic_tail_nonzero)
qed

lemma cprintf_panicked:
  assumes "panicked m \<noteq> 0"
  shows "panicked (final (cprintf env fmt ap m)) \<noteq> 0"
  using assms by (cases fmt) (simp_all add: cprintf_def cprintf_fmt_panicked panic_str_panicked)

lemma panic_panicked:
  assumes "panicked m \<noteq> 0"
  shows "panicked (final (panic env s m)) \<noteq> 0"
proof (cases s)
  case None
  have "panicked (final (then_do (panic_head env m) (panic_str env (bytes ''null fmt'')))) \<noteq> 0"
  proof (rule then_do_nonzero)
    show "panicked (final (panic_head env m)) \<noteq> 0"
      using assms by (simp add: panic_head_panicked)
  qed (rule panic_str_panicked)
  then show ?thesis
    by (simp add: panic_def None)
next
  case (Some str)
  then show ?thesis
    using assms by (simp add: panic_def panic_str_panicked)
qed

lemma consolewrite_loop_panicked: "panicked (final (consolewrite_loop bs m)) = panicked m"
proof (induction bs arbitrary: m)
  case Nil
  then show ?case by simp
next
  case (Cons b bs)
  show ?case
    using consputc_panicked[of "sint b AND 0xff" DEFAULT_CONSOLE_COLOR m] Cons.IH
    by (cases "consputc (sint b AND 0xff) DEFAULT_CONSOLE_COLOR m") simp_all
qed

lemma consolewrite_panicked: "panicked (final (consolewrite bs m)) = panicked m"
  using consolewrite_loop_panicked[of bs "emit [Iunlock, Acquire ConsLock] m"]
  unfolding consolewrite_def
  by (cases "consolewrite_loop bs (emit [Iunlock, Acquire ConsLock] m)") simp_all

lemma kill_line_panicked: "panicked (snd (final (kill_line inp m))) = panicked m"
proof (induction inp m rule: kill_line.induct)
  case (1 inp m)
  note c = consputc_panicked[of BACKSPACE DEFAULT_CONSOLE_COLOR m]
  show ?case
  proof (cases "input_e inp \<noteq> input_w inp
         \<and> sint (input_buf inp (unat ((input_e inp - 1) mod INPUT_BUF))) \<noteq> 10")
    case False
    then show ?thesis
      by (subst kill_line.simps) auto
  next
    case True
    show ?thesis
    proof (cases "consputc BACKSPACE DEFAULT_CONSOLE_COLOR m")
      case (Returns m1)
      then show ?thesis
        using True c "1.IH"[OF True Returns] by (subst kill_line.simps) simp
    next
      case (Spins m1)
      then show ?thesis
        using True c by (subst kill_line.simps) simp
    next
      case (Faults m1)
      then show ?thesis
        using True c by (subst kill_line.simps) simp
    qed
  qed
qed

lemma consoleintr_char_panicked: "panicked (snd (final (consoleintr_char c inp m))) = panicked m"
proof -
  note p = consputc_panicked[of _ DEFAULT_CONSOLE_COLOR m]
  consider (ctl) "c = 26 \<or> c = 16" | (kill) "c = 21" | (bs) "c = 8 \<or> c = 0x7f"
    | (ins) "\<not> is_edit c" "c \<noteq> 0" "input_e inp - input_r inp < INPUT_BUF"
    | (drop) "\<not> is_edit c" "\<not> (c \<noteq> 0 \<and> input_e inp - input_r inp < INPUT_BUF)"
    unfolding is_edit_def by blast
  then show ?thesis
  proof cases
    case ctl
    then show ?thesis by (auto simp: consoleintr_char_def)
  next
    case kill
    then show ?thesis by (simp add: consoleintr_char_def kill_line_panicked)
  next
    case bs
    then show ?thesis
      using p[of BACKSPACE] unfolding consoleintr_char_def
      by (cases "consputc BACKSPACE DEFAULT_CONSOLE_COLOR m") auto
  next
    case ins
    show ?thesis
      using p[of "stored_char c"] unfolding consoleintr_char_default[OF ins]
      by (cases "consputc (stored_char c) DEFAULT_CONSOLE_COLOR m") auto
  next
    case drop
    then show ?thesis
      unfolding consoleintr_char_def is_edit_def by auto
  qed
qed

lemma consoleintr_loop_panicked: "panicked (snd (final (consoleintr_loop cs inp m))) = panicked m"
proof (induction cs arbitrary: inp m)
  case Nil
  then show ?case by simp
next
  case (Cons c cs)
  show ?case
    using consoleintr_char_panicked[of c inp m] Cons.IH
    by (cases "consoleintr_char c inp m") (auto split: prod.split)
qed

lemma consoleintr_panicked: "panicked (snd (final (consoleintr cs inp m))) = panicked m"
  using consoleintr_loop_panicked[of cs inp "emit [Acquire InputLock] m"]
  unfolding consoleintr_def
  by (cases "consoleintr_loop cs inp (emit [Acquire InputLock] m)") (auto split: prod.split)

lemma consoleread_loop_panicked:
  "panicked (read_machine (consoleread_loop target n dst inp m)) = panicked m"
proof (induction target n dst inp m rule: consoleread_loop.induct)
  case (1 target n dst inp m)
  let ?c = "sint (input_buf inp (unat (input_r inp mod INPUT_BUF)))"
  show ?case
  proof (cases "0 < n \<and> input_r inp \<noteq> input_w inp \<and> ?c \<noteq> 4 \<and> ?c \<noteq> 10")
    case True
    then have "panicked (read_machine (consoleread_loop target (n - 1) (dst @ [word_of_int ?c])
        (inp\<lparr>input_r := input_r inp + 1\<rparr>) m)) = panicked m"
      using "1.IH"[OF _ _ refl refl] by blast
    then show ?thesis
      using True by (subst consoleread_loop.simps) (simp add: Let_def)
  next
    case False
    then show ?thesis
      by (subst consoleread_loop.simps) (auto simp: consoleread_exit_def Let_def)
  qed
qed

lemma consoleread_panicked: "panicked (read_machine (consoleread n inp m)) = panicked m"
  by (simp add: consoleread_def consoleread_loop_panicked)

section \<open>After a panic\<close>

text \<open>
  Claim C8. Once \<open>panicked\<close> is set, every call of consputc sees it, disables
  interrupts and spins forever: the outcome is \<open>Spins\<close>, with \<open>cli\<close> as the only call
  made, so nothing is sent to the serial port and neither the framebuffer nor the
  cursor registers are written. No operation of the driver resets the flag: whatever
  the outcome of consputc, cgaputc, consolewrite, cprintf, panic, consoleintr and
  consoleread, \<open>panicked\<close> is still set in the state they reach.
\<close>

theorem panicked_spins_forever:
  assumes "panicked m \<noteq> 0"
  shows "consputc c color m = Spins (emit [Cli] m)
       \<and> trace (final (consputc c color m)) = trace m @ [Cli]
       \<and> crt (final (consputc c color m)) = crt m
       \<and> crtc_regs (final (consputc c color m)) = crtc_regs m
       \<and> panicked (final (consputc c color m)) \<noteq> 0
       \<and> panicked (final (cgaputc c color m)) \<noteq> 0
       \<and> panicked (final (consolewrite buf m)) \<noteq> 0
       \<and> panicked (final (cprintf env fmt ap m)) \<noteq> 0
       \<and> panicked (final (panic env s m)) \<noteq> 0
       \<and> panicked (snd (final (consoleintr getc inp m))) \<noteq> 0
       \<and> panicked (read_machine (consoleread n inp m)) \<noteq> 0"
  using assms
  by (simp add: consputc_spins cgaputc_panicked consolewrite_panicked cprintf_panicked
      panic_panicked consoleintr_panicked consoleread_panicked)

theorem panicked_spins_forever_witness:
  "consputc 97 DEFAULT_CONSOLE_COLOR machine_panicked = Spins (emit [Cli] machine_panicked)
   \<and> trace (final (consputc 97 DEFAULT_CONSOLE_COLOR machine_panicked)) = [Cli]
   \<and> crt (final (consputc 97 DEFAULT_CONSOLE_COLOR machine_panicked)) = crt machine0
   \<and> panicked (final (consolewrite [97] machine_panicked)) \<noteq> 0
   \<and> panicked (final (cprintf \<lparr>cpu_id = 0, callerpcs = [] :: 64 word list\<rparr> None []
         machine_panicked)) \<noteq> 0
   \<and> panicked (final (panic \<lparr>cpu_id = 0, callerpcs = [] :: 64 word list\<rparr> None
         machine_panicked)) \<noteq> 0
   \<and> panicked (snd (final (consoleintr [97] input0 machine_panicked))) \<noteq> 0
   \<and> panicked (read_machine (consoleread 1 input0 machine_panicked)) \<noteq> 0"
  using panicked_spins_forever [of machine_panicked 97 DEFAULT_CONSOLE_COLOR "[97]"
      "\<lparr>cpu_id = 0, callerpcs = [] :: 64 word list\<rparr>" None "[]" None "[97]" input0 1]
  by (simp add: machine_panicked_def machine0_def)

lemma cell_add_or:
  "(word_of_int (take_bit 8 c) :: 16 word) + push_bit 8 hi = word_of_int (take_bit 8 c) OR push_bit 8 hi"
  by (rule disjunctive_add) (auto simp: bit_word_of_int_iff bit_take_bit_iff bit_push_bit_iff)

lemma cell_or:
  "(ucast ((word_of_int (take_bit 8 c) :: 32 word) OR push_bit 8 (ucast (hi :: 8 word))) :: 16 word)
     = word_of_int (take_bit 8 c) OR push_bit 8 (ucast hi)"
  by (rule bit_eqI)
     (auto simp: bit_ucast_iff bit_or_iff bit_word_of_int_iff bit_take_bit_iff bit_push_bit_iff
        dest: bit_imp_le_length)

lemma cell_default: "cga_cell c DEFAULT_CONSOLE_COLOR = default_cell c"
proof -
  have d: "DEFAULT_CONSOLE_COLOR = ucast (7 :: 8 word)"
    by (simp add: DEFAULT_CONSOLE_COLOR_def)
  have m: "c AND 0xff = take_bit 8 c"
    by (simp add: take_bit_eq_mask mask_eq_exp_minus_1)
  have "cga_cell c DEFAULT_CONSOLE_COLOR
      = (word_of_int (take_bit 8 c) :: 16 word) + push_bit 8 (ucast (7 :: 8 word))"
    unfolding cga_cell_def d m by (simp only: cell_or cell_add_or)
  then show ?thesis
    by (simp add: take_bit_eq_mod default_cell_def)
qed

lemma printed_refl: "panicked m = 0 \<Longrightarrow> cursor m < 2000 \<Longrightarrow> printed m [] m"
  by (simp add: printed_def cga_steps_def)

lemma printed_trans: "printed m cs m1 \<Longrightarrow> printed m1 ds m2 \<Longrightarrow> printed m (cs @ ds) m2"
  by (auto simp: printed_def cga_steps_def)

lemma printed_ready: "printed m cs m' \<Longrightarrow> panicked m' = 0 \<and> cursor m' < 2000"
  by (simp add: printed_def)

lemma consputc_printed:
  assumes "panicked m = 0" "cursor m < 2000" "c \<noteq> BACKSPACE"
  shows "\<exists>m'. consputc c DEFAULT_CONSOLE_COLOR m = Returns m' \<and> printed m [c] m'"
proof -
  let ?m1 = "uartputc c m"
  let ?adv = "cga_advance c (cursor m)"
  have c1: "cursor ?m1 = cursor m" "crt ?m1 = crt m" "trace ?m1 = trace m @ [Uartputc c]"
    "panicked ?m1 = panicked m" "cons_locking ?m1 = cons_locking m"
    "proc_killed ?m1 = proc_killed m"
    by (simp_all add: uartputc_def)
  have b: "0 \<le> ?adv" "?adv \<le> 2000"
    using cga_advance_bounds[OF cursor_nonneg assms(2), of c] by simp_all
  have st: "crt (cga_stored c DEFAULT_CONSOLE_COLOR ?m1)
      = (if c = 10 \<or> c = 0x100 then crt m else (crt m)(nat (cursor m) := default_cell c))"
    by (simp add: cga_stored_def uartputc_def cell_default)
  have cp: "consputc c DEFAULT_CONSOLE_COLOR m = cgaputc c DEFAULT_CONSOLE_COLOR ?m1"
    using assms(1,3) by (simp add: consputc_def)
  show ?thesis
  proof (cases "1920 \<le> ?adv")
    case False
    then have "cgaputc c DEFAULT_CONSOLE_COLOR ?m1
        = Returns (cga_setpos ?adv (cga_stored c DEFAULT_CONSOLE_COLOR ?m1))"
      by (simp add: cgaputc_eq c1)
    moreover have "printed m [c] (cga_setpos ?adv (cga_stored c DEFAULT_CONSOLE_COLOR ?m1))"
      using False b assms(1)
      by (simp add: printed_def cga_steps_def cga_step_def Let_def cursor_cga_setpos st c1)
    ultimately show ?thesis
      using cp by simp
  next
    case True
    let ?m2 = "snd (final (cga_scroll ?adv (cga_stored c DEFAULT_CONSOLE_COLOR ?m1)))"
    have "cgaputc c DEFAULT_CONSOLE_COLOR ?m1 = Returns (cga_setpos (?adv - 80) ?m2)"
      using True b by (simp add: cgaputc_eq c1 cga_scroll_eq)
    moreover have "printed m [c] (cga_setpos (?adv - 80) ?m2)"
      using True b assms(1)
      by (simp add: printed_def cga_steps_def cga_step_def Let_def cursor_cga_setpos st c1
          cga_scroll_eq cong del: if_weak_cong)
    ultimately show ?thesis
      using cp by simp
  qed
qed

lemma printint_out_printed:
  "panicked m = 0 \<Longrightarrow> cursor m < 2000 \<Longrightarrow>
   \<exists>m'. printint_out bs DEFAULT_CONSOLE_COLOR m = Returns m' \<and> printed m (map sint bs) m'"
proof (induction bs arbitrary: m)
  case Nil
  then show ?case by (simp add: printed_refl)
next
  case (Cons b bs)
  have "sint b \<noteq> BACKSPACE"
    using sint_lt[of b] by (simp add: BACKSPACE_def)
  from consputc_printed[OF Cons.prems this]
  obtain m1 where m1: "consputc (sint b) DEFAULT_CONSOLE_COLOR m = Returns m1" "printed m [sint b] m1"
    by blast
  from Cons.IH[of m1] printed_ready[OF m1(2)]
  obtain m' where m': "printint_out bs DEFAULT_CONSOLE_COLOR m1 = Returns m'" "printed m1 (map sint bs) m'"
    by blast
  have "printed m ([sint b] @ map sint bs) m'"
    using m1(2) m'(2) by (rule printed_trans)
  then show ?case
    using m1(1) m'(1) by (simp add: then_do_def)
qed

lemma consputc_str_printed:
  "panicked m = 0 \<Longrightarrow> cursor m < 2000 \<Longrightarrow>
   \<exists>m'. consputc_str s DEFAULT_CONSOLE_COLOR m = Returns m'
     \<and> printed m (map sint (takeWhile (\<lambda>b. b \<noteq> 0) s)) m'"
proof (induction s arbitrary: m)
  case Nil
  then show ?case by (simp add: printed_refl)
next
  case (Cons b s)
  show ?case
  proof (cases "b = 0")
    case True
    then show ?thesis
      using Cons.prems by (simp add: printed_refl)
  next
    case False
    have "sint b \<noteq> BACKSPACE"
      using sint_lt[of b] by (simp add: BACKSPACE_def)
    from consputc_printed[OF Cons.prems this]
    obtain m1 where m1: "consputc (sint b) DEFAULT_CONSOLE_COLOR m = Returns m1" "printed m [sint b] m1"
      by blast
    from Cons.IH[of m1] printed_ready[OF m1(2)]
    obtain m' where m': "consputc_str s DEFAULT_CONSOLE_COLOR m1 = Returns m'"
      "printed m1 (map sint (takeWhile (\<lambda>b. b \<noteq> 0) s)) m'"
      by blast
    have "printed m ([sint b] @ map sint (takeWhile (\<lambda>b. b \<noteq> 0) s)) m'"
      using m1(2) m'(2) by (rule printed_trans)
    then show ?thesis
      using False m1(1) m'(1) by (simp add: then_do_def)
  qed
qed

lemma printint_printed:
  assumes "printint_text xx base sign = Some out" "panicked m = 0" "cursor m < 2000"
  shows "\<exists>m'. printint xx base sign DEFAULT_CONSOLE_COLOR m = Returns m' \<and> printed m out m'"
proof -
  define sign1 :: int where "sign1 = (if sign \<noteq> 0 then (if xx <s 0 then 1 else 0) else sign)"
  define x where "x = (if sign \<noteq> 0 \<and> sign1 \<noteq> 0 then - xx else xx)"
  obtain ds where ds: "printint_buf x base = Some ds"
    using assms(1) unfolding printint_text_def sign1_def[symmetric] Let_def x_def[symmetric]
    by (cases "printint_buf x base") simp_all
  define buf where "buf = ds @ (if sign1 \<noteq> 0 then [of_char (CHR ''-'') :: 8 word] else [])"
  have out: "\<not> 16 < length buf" "out = map sint (rev buf)"
    using assms(1) ds
    unfolding printint_text_def sign1_def[symmetric] Let_def x_def[symmetric] buf_def
    by (simp_all split: if_splits)
  have "printint xx base sign DEFAULT_CONSOLE_COLOR m = printint_out (rev buf) DEFAULT_CONSOLE_COLOR m"
    using ds out(1)
    unfolding printint_def sign1_def[symmetric] Let_def x_def[symmetric] buf_def
    by (simp del: printint_out.simps)
  then show ?thesis
    using printint_out_printed[OF assms(2,3), of "rev buf"] out(2) by simp
qed

lemma printptr_loop_printed:
  "printptr_text_loop k x = Some out \<Longrightarrow> panicked m = 0 \<Longrightarrow> cursor m < 2000 \<Longrightarrow>
   \<exists>m'. printptr_loop k x DEFAULT_CONSOLE_COLOR m = Returns m' \<and> printed m out m'"
proof (induction k arbitrary: x out m)
  case 0
  then show ?case by (simp add: printed_refl)
next
  case (Suc k)
  let ?i = "unat (drop_bit (LENGTH('a) div 8 * 8 - 4) x)"
  from Suc.prems(1) have i: "\<not> length digits \<le> ?i"
    by (simp add: Let_def split: if_splits)
  with Suc.prems(1) obtain t where t: "printptr_text_loop k (push_bit 4 x) = Some t"
    "out = sint (digits ! ?i) # t"
    by (auto simp: Let_def)
  have "sint (digits ! ?i) \<noteq> BACKSPACE"
    using sint_lt[of "digits ! ?i"] by (simp add: BACKSPACE_def)
  from consputc_printed[OF Suc.prems(2,3) this]
  obtain m1 where m1: "consputc (sint (digits ! ?i)) DEFAULT_CONSOLE_COLOR m = Returns m1"
    "printed m [sint (digits ! ?i)] m1"
    by blast
  from Suc.IH[OF t(1), of m1] printed_ready[OF m1(2)]
  obtain m' where m': "printptr_loop k (push_bit 4 x) DEFAULT_CONSOLE_COLOR m1 = Returns m'"
    "printed m1 t m'"
    by blast
  have "printed m ([sint (digits ! ?i)] @ t) m'"
    using m1(2) m'(2) by (rule printed_trans)
  then show ?case
    using i t(2) m1(1) m'(1) by (simp add: Let_def then_do_def)
qed

lemma cprintf_switch_printed:
  assumes "cprintf_switch_text c ap = Some (out, ap1)" "panicked m = 0" "cursor m < 2000"
    and "c \<noteq> BACKSPACE"
  shows "\<exists>m'. cprintf_switch c ap m = (Returns m', ap1) \<and> printed m out m'"
proof -
  consider (d) "c = 100" | (x) "c = 120" | (p) "c = 112" | (s) "c = 115" | (pc) "c = 37"
    | (other) "c \<noteq> 100" "c \<noteq> 120" "c \<noteq> 112" "c \<noteq> 115" "c \<noteq> 37"
    by blast
  then show ?thesis
  proof cases
    case d
    with assms(1) obtain v where v: "ap = ArgInt v # ap1" "printint_text v 10 1 = Some out"
      by (auto simp: cprintf_switch_text_def split: list.splits arg.splits)
    from printint_printed[OF v(2) assms(2,3)] show ?thesis
      using d v(1) by (auto simp: cprintf_switch_def)
  next
    case x
    with assms(1) obtain v where v: "ap = ArgInt v # ap1" "printint_text v 16 0 = Some out"
      by (auto simp: cprintf_switch_text_def split: list.splits arg.splits)
    from printint_printed[OF v(2) assms(2,3)] show ?thesis
      using x v(1) by (auto simp: cprintf_switch_def)
  next
    case p
    with assms(1) obtain v where v: "ap = ArgPtr v # ap1" "printptr_text v = Some out"
      by (auto simp: cprintf_switch_text_def split: list.splits arg.splits)
    from printptr_loop_printed[OF v(2)[unfolded printptr_text_def] assms(2,3)] show ?thesis
      using p v(1) by (auto simp: cprintf_switch_def printptr_def)
  next
    case s
    with assms(1) obtain sp where sp: "ap = ArgStr sp # ap1"
      "out = map sint (takeWhile (\<lambda>b. b \<noteq> 0)
          (case sp of None \<Rightarrow> bytes ''(null)'' | Some str \<Rightarrow> str))"
      by (auto simp: cprintf_switch_text_def bytes_def split: list.splits arg.splits option.splits)
    from consputc_str_printed[OF assms(2,3),
        of "case sp of None \<Rightarrow> bytes ''(null)'' | Some str \<Rightarrow> str"]
    show ?thesis
      using s sp by (auto simp: cprintf_switch_def simp del: consputc_str.simps)
  next
    case pc
    with assms(1) have o: "out = [37]" "ap1 = ap"
      by (auto simp: cprintf_switch_text_def)
    have "(37::int) \<noteq> BACKSPACE"
      by (simp add: BACKSPACE_def)
    from consputc_printed[OF assms(2,3) this] show ?thesis
      using pc o by (auto simp: cprintf_switch_def)
  next
    case other
    with assms(1) have o: "out = [37, c]" "ap1 = ap"
      by (auto simp: cprintf_switch_text_def)
    have "(37::int) \<noteq> BACKSPACE"
      by (simp add: BACKSPACE_def)
    from consputc_printed[OF assms(2,3) this]
    obtain m1 where m1: "consputc 37 DEFAULT_CONSOLE_COLOR m = Returns m1" "printed m [37] m1"
      by blast
    from consputc_printed[OF _ _ assms(4), of m1] printed_ready[OF m1(2)]
    obtain m' where m': "consputc c DEFAULT_CONSOLE_COLOR m1 = Returns m'" "printed m1 [c] m'"
      by blast
    have "printed m ([37] @ [c]) m'"
      using m1(2) m'(2) by (rule printed_trans)
    then show ?thesis
      using other o m1(1) m'(1) by (simp add: cprintf_switch_def then_do_def)
  qed
qed

lemma uint8_not_backspace: "uint (b::8 word) \<noteq> BACKSPACE"
  using uint_bounded[of b] by (simp add: BACKSPACE_def)

lemma cprintf_loop_printed:
  "cprintf_text fmt ap = Some out \<Longrightarrow> panicked m = 0 \<Longrightarrow> cursor m < 2000 \<Longrightarrow>
   \<exists>m'. cprintf_loop fmt ap m = Returns m' \<and> printed m out m'"
proof (induction fmt ap arbitrary: out m rule: cprintf_text.induct)
  case (1 ap)
  then show ?case by (simp add: printed_refl)
next
  case (2 f ap)
  show ?case
  proof (cases "uint f = 0 \<or> uint f = 37")
    case True
    then show ?thesis
      using "2.prems" by (auto simp: byte_and printed_refl)
  next
    case False
    then have "out = [uint f]"
      using "2.prems"(1) by simp
    then show ?thesis
      using False consputc_printed[OF "2.prems"(2,3) uint8_not_backspace, of f]
      by (simp add: byte_and)
  qed
next
  case (3 f d fs ap)
  consider (z) "uint f = 0" | (lit) "uint f \<noteq> 0" "uint f \<noteq> 37"
    | (dz) "uint f = 37" "uint d = 0" | (dir) "uint f = 37" "uint d \<noteq> 0"
    by blast
  then show ?case
  proof cases
    case z
    then show ?thesis
      using "3.prems" by (simp add: byte_and printed_refl)
  next
    case lit
    with "3.prems"(1) obtain t where t: "cprintf_text (d # fs) ap = Some t" "out = uint f # t"
      by auto
    from consputc_printed[OF "3.prems"(2,3) uint8_not_backspace, of f]
    obtain m1 where m1: "consputc (uint f) DEFAULT_CONSOLE_COLOR m = Returns m1"
      "printed m [uint f] m1"
      by blast
    from "3.IH"(1)[OF lit t(1), of m1] printed_ready[OF m1(2)]
    obtain m' where m': "cprintf_loop (d # fs) ap m1 = Returns m'" "printed m1 t m'"
      by blast
    have "printed m ([uint f] @ t) m'"
      using m1(2) m'(2) by (rule printed_trans)
    then show ?thesis
      using lit t(2) m1(1) m'(1) by (simp add: byte_and then_do_def)
  next
    case dz
    then show ?thesis
      using "3.prems" by (simp add: byte_and printed_refl)
  next
    case dir
    with "3.prems"(1) obtain t ap1 r where t: "cprintf_switch_text (uint d) ap = Some (t, ap1)"
      "cprintf_text fs ap1 = Some r" "out = t @ r"
      by (auto split: option.splits)
    from cprintf_switch_printed[OF t(1) "3.prems"(2,3) uint8_not_backspace]
    obtain m1 where m1: "cprintf_switch (uint d) ap m = (Returns m1, ap1)" "printed m t m1"
      by blast
    have f0: "uint f \<noteq> 0"
      using dir by simp
    from "3.IH"(2)[OF f0 _ dir(2) t(1) refl t(2), of m1] dir(1) printed_ready[OF m1(2)]
    obtain m' where m': "cprintf_loop fs ap1 m1 = Returns m'" "printed m1 r m'"
      by auto
    have "printed m (t @ r) m'"
      using m1(2) m'(2) by (rule printed_trans)
    then show ?thesis
      using dir t(3) m1(1) m'(1) by (simp add: byte_and then_do_def)
  qed
qed

lemma of_nat_small: "j < 4294967296 \<Longrightarrow> unat (of_nat j :: 32 word) = j"
  by (simp add: unat_of_nat take_bit_nat_eq_self)

lemma typed_x_step:
  assumes "j < 127" "panicked m = 0" "cursor m < 2000"
  shows "\<exists>m'. consoleintr_char 120 (typed_x j) m = Returns (typed_x (Suc j), m')
     \<and> panicked m' = 0 \<and> cursor m' < 2000"
proof -
  obtain m1 where m1: "consputc 120 DEFAULT_CONSOLE_COLOR m = Returns m1"
    "panicked m1 = 0" "cursor m1 < 2000"
    using consputc_returns_default[OF assms(2,3), of 120] by blast
  have lt: "input_e (typed_x j) - input_r (typed_x j) < INPUT_BUF"
    using assms(1) by (simp add: typed_x_def INPUT_BUF_def word_less_nat_alt of_nat_small)
  have "unat (of_nat (Suc j) :: 32 word) \<noteq> unat (128 :: 32 word)"
    using assms(1) by (simp only: of_nat_small) simp
  then have nofull: "input_e (typed_x j) + 1 \<noteq> input_r (typed_x j) + INPUT_BUF"
    by (auto simp: typed_x_def INPUT_BUF_def)
  have st: "store 120 (typed_x j) = typed_x (Suc j)"
  proof -
    have "unat ((of_nat j :: 32 word) mod 128) = j"
      using assms(1) by (simp add: unat_of_nat_mod128)
    moreover have "(\<lambda>i. if i < j then 120 else (0::8 word))(j := 120)
        = (\<lambda>i. if i < Suc j then 120 else 0)"
      by (rule ext) auto
    ultimately show ?thesis
      by (simp add: store_def stored_char_def typed_x_def INPUT_BUF_def)
  qed
  have "consoleintr_char 120 (typed_x j) m = Returns (typed_x (Suc j), m1)"
    using m1(1) nofull st
    by (simp add: consoleintr_char_default[OF _ _ lt] is_edit_def stored_char_def)
  then show ?thesis
    using m1 by blast
qed

lemma typed_x_last:
  assumes "panicked m = 0" "cursor m < 2000"
  shows "\<exists>m'. consoleintr_char 120 (typed_x 127) m = Returns (input_full, m')"
proof -
  obtain m1 where m1: "consputc 120 DEFAULT_CONSOLE_COLOR m = Returns m1"
    using consputc_returns_default[OF assms, of 120] by blast
  have lt: "input_e (typed_x 127) - input_r (typed_x 127) < INPUT_BUF"
    by (simp add: typed_x_def INPUT_BUF_def)
  have "(\<lambda>i::nat. if i < 127 then 120 else (0::8 word))(127 := 120)
        = (\<lambda>i. if i < 128 then 120 else 0)"
    by (rule ext) auto
  then have st: "(store 120 (typed_x 127))\<lparr>input_w := input_e (typed_x 127) + 1\<rparr> = input_full"
    by (simp add: store_def stored_char_def typed_x_def INPUT_BUF_def input_full_def)
  have "consoleintr_char 120 (typed_x 127) m = Returns (input_full, emit [Wakeup] m1)"
    using m1 st
    by (simp add: consoleintr_char_default[OF _ _ lt] is_edit_def stored_char_def)
       (simp add: typed_x_def INPUT_BUF_def)
  then show ?thesis
    by blast
qed

lemma typed_x_run:
  "j + Suc k = 128 \<Longrightarrow> panicked m = 0 \<Longrightarrow> cursor m < 2000 \<Longrightarrow>
   \<exists>m'. consoleintr_loop (replicate (Suc k) 120) (typed_x j) m = Returns (input_full, m')"
proof (induction k arbitrary: j m)
  case 0
  then have "j = 127" by simp
  then show ?case
    using typed_x_last[OF "0.prems"(2,3)] by auto
next
  case (Suc k)
  have "j < 127"
    using Suc.prems(1) by simp
  from typed_x_step[OF this Suc.prems(2,3)]
  obtain m1 where m1: "consoleintr_char 120 (typed_x j) m = Returns (typed_x (Suc j), m1)"
    "panicked m1 = 0" "cursor m1 < 2000"
    by blast
  have "Suc j + Suc k = 128"
    using Suc.prems(1) by simp
  from Suc.IH[OF this m1(2,3)]
  obtain m' where "consoleintr_loop (replicate (Suc k) 120) (typed_x (Suc j)) m1 = Returns (input_full, m')"
    by blast
  then show ?case
    using m1(1) by simp
qed

lemma consoleintr_full:
  "\<exists>m'. consoleintr (replicate 128 120) input0 machine0 = Returns (input_full, m')"
proof -
  have "typed_x 0 = input0"
    by (simp add: typed_x_def input0_def)
  moreover have "\<exists>m'. consoleintr_loop (replicate (Suc 127) 120) (typed_x 0)
      (emit [Acquire InputLock] machine0) = Returns (input_full, m')"
    by (rule typed_x_run) (simp_all add: machine0_screen)
  ultimately show ?thesis
    by (auto simp: consoleintr_def)
qed

lemma holds_at_full: "holds_at input_full (replicate 128 120)"
  unfolding holds_at_def
proof (intro allI impI)
  fix i :: nat
  assume "i < length (replicate 128 (120::8 word))"
  then have i: "i < 128" by simp
  then have "unat ((of_nat i :: 32 word) mod 128) = i"
    by (simp add: unat_of_nat_mod128)
  then show "input_buf input_full (unat ((input_r input_full + of_nat i) mod INPUT_BUF))
      = replicate 128 120 ! i"
    using i by (simp add: input_full_def INPUT_BUF_def)
qed

lemma read_drained_killed:
  assumes "holds_at inp xs" "\<forall>b\<in>set xs. b \<noteq> 10 \<and> b \<noteq> 4"
    and "length xs = unat (input_w inp - input_r inp)" "int (length xs) < n"
    and "proc_killed m \<noteq> 0"
  shows "consoleread n inp m = ReadReturns (- 1) xs (inp\<lparr>input_r := input_w inp\<rparr>)
      (emit [Iunlock, Acquire InputLock, Release InputLock, Ilock] m)"
proof -
  let ?m = "emit [Iunlock, Acquire InputLock] m"
  have w: "input_r inp + of_nat (length xs) = input_w inp"
    using assms(3) by simp
  have "consoleread_loop (word_of_int n) n [] inp ?m
      = consoleread_loop (word_of_int n) (n - int (length xs)) ([] @ xs)
          (inp\<lparr>input_r := input_r inp + of_nat (length xs)\<rparr>) ?m"
    using assms(1,2) by (rule read_run) (use assms(3,4) in simp_all)
  also have "\<dots> = consoleread_loop (word_of_int n) (n - int (length xs)) xs
          (inp\<lparr>input_r := input_w inp\<rparr>) ?m"
    by (simp only: w append_Nil)
  also have "\<dots> = ReadReturns (- 1) xs (inp\<lparr>input_r := input_w inp\<rparr>)
      (emit [Iunlock, Acquire InputLock, Release InputLock, Ilock] m)"
    using assms(4,5) by (subst consoleread_loop.simps) (simp add: emit_emit)
  finally show ?thesis
    by (simp add: consoleread_def)
qed

section \<open>Cancelled reads\<close>

text \<open>
  Claim C7, amended. When consoleread finds the buffer empty (\<open>r = w\<close>, with bytes
  still to deliver, \<open>n > 0\<close>) and the calling task is marked as killed, it returns
  \<open>-1\<close> without consuming any further input: the input buffer and the bytes stored
  through \<open>dst\<close> are as they were at that moment, wherever in its loop this happens. A
  call that finds the buffer empty at its start returns \<open>-1\<close> with nothing consumed
  and nothing delivered. A call that finds committed bytes first, none of them a
  newline or the EOF marker, and asks for more than these, consumes them all, stores
  them through \<open>dst\<close>, and then returns \<open>-1\<close> with \<open>r = w\<close>.
\<close>

theorem consoleread_killed:
  assumes "proc_killed m \<noteq> 0"
  shows "(0 < n \<and> input_r inp = input_w inp \<longrightarrow>
            consoleread_loop target n dst inp m
              = ReadReturns (- 1) dst inp (emit [Release InputLock, Ilock] m)
          \<and> consoleread n inp m
              = ReadReturns (- 1) [] inp
                  (emit [Iunlock, Acquire InputLock, Release InputLock, Ilock] m))
       \<and> (holds_at inp xs \<and> (\<forall>b\<in>set xs. b \<noteq> 10 \<and> b \<noteq> 4)
            \<and> length xs = unat (input_w inp - input_r inp) \<and> int (length xs) < n \<longrightarrow>
            consoleread n inp m
              = ReadReturns (- 1) xs (inp\<lparr>input_r := input_w inp\<rparr>)
                  (emit [Iunlock, Acquire InputLock, Release InputLock, Ilock] m))"
proof (intro conjI impI)
  assume a: "0 < n \<and> input_r inp = input_w inp"
  show "consoleread_loop target n dst inp m
           = ReadReturns (- 1) dst inp (emit [Release InputLock, Ilock] m)"
    using assms a by (subst consoleread_loop.simps) simp
  show "consoleread n inp m
           = ReadReturns (- 1) [] inp
               (emit [Iunlock, Acquire InputLock, Release InputLock, Ilock] m)"
    unfolding consoleread_def
    using assms a by (subst consoleread_loop.simps) (simp add: emit_emit)
next
  assume "holds_at inp xs \<and> (\<forall>b\<in>set xs. b \<noteq> 10 \<and> b \<noteq> 4)
            \<and> length xs = unat (input_w inp - input_r inp) \<and> int (length xs) < n"
  then have "holds_at inp xs" "\<forall>b\<in>set xs. b \<noteq> 10 \<and> b \<noteq> 4"
    "length xs = unat (input_w inp - input_r inp)" "int (length xs) < n"
    by blast+
  then show "consoleread n inp m
              = ReadReturns (- 1) xs (inp\<lparr>input_r := input_w inp\<rparr>)
                  (emit [Iunlock, Acquire InputLock, Release InputLock, Ilock] m)"
    using assms by (rule read_drained_killed)
qed

theorem consoleread_killed_witness:
  "consoleread_loop 9 5 [1, 2] input0 machine_killed
     = ReadReturns (- 1) [1, 2] input0 (emit [Release InputLock, Ilock] machine_killed)
   \<and> consoleread 5 input0 machine_killed
     = ReadReturns (- 1) [] input0
         (emit [Iunlock, Acquire InputLock, Release InputLock, Ilock] machine_killed)
   \<and> consoleread 200 input_full machine_killed
     = ReadReturns (- 1) (replicate 128 120) (input_full\<lparr>input_r := 128\<rparr>)
         (emit [Iunlock, Acquire InputLock, Release InputLock, Ilock] machine_killed)"
  using consoleread_killed [of machine_killed 5 input0 9 "[1, 2]" "[]"]
    consoleread_killed [of machine_killed 200 input_full 0 "[]" "replicate 128 120"]
    holds_at_full
  by (simp add: input0_def machine_killed_def machine0_def input_full_def)

text \<open>
  Claim C7 as written fails for a call that has consumed input before it finds the
  buffer empty. From boot, 128 characters \<open>x\<close> fill the buffer, which commits them
  without a newline; consoleread(200) by a killed task then delivers the 128
  characters, finds \<open>r = w\<close> and returns \<open>-1\<close>: the read index has moved from 0 to 128
  and 128 bytes have been stored through \<open>dst\<close>.
\<close>

theorem cancelled_read_consumes:
  "is_Returns (consoleintr (replicate 128 120) input0 machine0)
   \<and> fst (final (consoleintr (replicate 128 120) input0 machine0)) = input_full
   \<and> proc_killed machine_killed \<noteq> 0
   \<and> read_result (consoleread 200 input_full machine_killed) = - 1
   \<and> input_r input_full = 0
   \<and> input_r (read_input (consoleread 200 input_full machine_killed)) = 128
   \<and> input_w (read_input (consoleread 200 input_full machine_killed)) = 128
   \<and> read_dst (consoleread 200 input_full machine_killed) = replicate 128 120"
proof -
  have "length (replicate 128 (120::8 word)) = unat (input_w input_full - input_r input_full)"
    "\<forall>b\<in>set (replicate 128 (120::8 word)). b \<noteq> 10 \<and> b \<noteq> 4"
    "int (length (replicate 128 (120::8 word))) < 200" "proc_killed machine_killed \<noteq> 0"
    by (simp_all add: input_full_def machine_killed_def machine0_def)
  from read_drained_killed[OF holds_at_full this(2,1,3,4)]
  have "consoleread 200 input_full machine_killed
      = ReadReturns (- 1) (replicate 128 120) (input_full\<lparr>input_r := input_w input_full\<rparr>)
          (emit [Iunlock, Acquire InputLock, Release InputLock, Ilock] machine_killed)" .
  then show ?thesis
    using consoleintr_full
    by (auto simp: input_full_def machine_killed_def machine0_def)
qed

lemma null_text_sint: "map sint (takeWhile (\<lambda>b. b \<noteq> 0) (bytes ''(null)'')) = map sint (bytes ''(null)'')"
  by (simp add: bytes_def)

lemma cprintf_switch_text_null:
  "cprintf_switch_text c (map null_as_text ap)
     = map_option (\<lambda>(t, ap1). (t, map null_as_text ap1)) (cprintf_switch_text c ap)"
  unfolding cprintf_switch_text_def
  by (auto simp: null_as_text_def null_text_sint option.map_comp comp_def
      split: list.split arg.split option.split)

lemma cprintf_text_null: "cprintf_text fmt (map null_as_text ap) = cprintf_text fmt ap"
proof (induction fmt ap rule: cprintf_text.induct)
  case (1 ap)
  then show ?case by simp
next
  case (2 f ap)
  then show ?case by simp
next
  case (3 f d fs ap)
  show ?case
  proof (cases "uint f \<noteq> 0 \<and> uint f = 37 \<and> uint d \<noteq> 0")
    case False
    then show ?thesis
      using "3.IH"(1) by auto
  next
    case True
    show ?thesis
    proof (cases "cprintf_switch_text (uint d) ap")
      case None
      then show ?thesis
        using True by (simp add: cprintf_switch_text_null)
    next
      case (Some x)
      obtain t ap1 where x: "x = (t, ap1)" by (cases x)
      have "cprintf_text fs (map null_as_text ap1) = cprintf_text fs ap1"
        using "3.IH"(2)[OF _ _ _ Some x[symmetric]] True by simp
      then show ?thesis
        using True Some x by (simp add: cprintf_switch_text_null)
    qed
  qed
qed

lemma cprintf_text_literal:
  "\<forall>b\<in>set pre. b \<noteq> 0 \<and> b \<noteq> 37 \<Longrightarrow>
   cprintf_text (pre @ bytes ''%s'' @ post) (ArgStr None # ap)
     = map_option (\<lambda>r. map uint pre @ map sint (bytes ''(null)'') @ r) (cprintf_text post ap)"
proof (induction pre)
  case Nil
  have "(@) [40, 110, 117, 108, 108, 41 :: int] = (\<lambda>r. 40 # 110 # 117 # 108 # 108 # 41 # r)"
    by (rule ext) simp
  then show ?case
    by (simp add: bytes_def cprintf_switch_text_def option.map_comp comp_def)
next
  case (Cons p pre)
  obtain d fs where t: "pre @ bytes ''%s'' @ post = d # fs"
    by (cases "pre @ bytes ''%s'' @ post") (simp_all add: bytes_def)
  have p: "uint p \<noteq> 0" "uint p \<noteq> 37"
    using Cons.prems word_uint_eq_iff[of p 0] word_uint_eq_iff[of p 37] by simp_all
  have "cprintf_text ((p # pre) @ bytes ''%s'' @ post) (ArgStr None # ap)
      = map_option ((#) (uint p)) (cprintf_text (pre @ bytes ''%s'' @ post) (ArgStr None # ap))"
    using p by (simp add: t)
  also have "\<dots> = map_option ((#) (uint p))
      (map_option (\<lambda>r. map uint pre @ map sint (bytes ''(null)'') @ r) (cprintf_text post ap))"
    using Cons by simp
  finally show ?case
    by (simp add: option.map_comp comp_def)
qed

lemma length_digits: "length digits = 17"
  by (simp add: digits_def bytes_def)

lemma printint_buf_some:
  assumes b: "2 \<le> unat base" "unat base \<le> 16"
  shows "0 < k \<Longrightarrow> unat x < unat base ^ k \<Longrightarrow>
    \<exists>ds. printint_buf x base = Some ds \<and> length ds \<le> k"
proof (induction k arbitrary: x)
  case 0
  then show ?case by simp
next
  case (Suc k)
  have nz: "base \<noteq> 0" "base \<noteq> 1"
    using b(1) by auto
  have "unat (x mod base) = unat x mod unat base"
    by (rule unat_mod)
  also have "\<dots> < unat base"
    using b(1) by simp
  finally have idx: "\<not> length digits \<le> unat (x mod base)"
    using b(2) by (simp add: length_digits)
  show ?case
  proof (cases "x div base = 0")
    case True
    then have "printint_buf x base = Some [digits ! unat (x mod base)]"
      using nz idx by (subst printint_buf.simps) simp
    then show ?thesis by simp
  next
    case False
    have dv: "unat (x div base) = unat x div unat base"
      by (rule unat_div)
    have "0 < k"
    proof (rule ccontr)
      assume "\<not> 0 < k"
      then have "unat x < unat base"
        using Suc.prems(2) by simp
      then have "unat (x div base) = 0"
        using dv by simp
      then show False
        using False by (simp add: unat_eq_zero)
    qed
    moreover have "unat (x div base) < unat base ^ k"
      using Suc.prems(2) b(1) dv by (simp add: less_mult_imp_div_less mult.commute)
    ultimately obtain ds where ds: "printint_buf (x div base) base = Some ds" "length ds \<le> k"
      using Suc.IH by blast
    have "printint_buf x base = Some (digits ! unat (x mod base) # ds)"
      using nz idx False ds(1) by (subst printint_buf.simps) simp
    then show ?thesis
      using ds(2) by simp
  qed
qed

lemma printint_text_some:
  "\<exists>t. printint_text v 10 1 = Some t" "\<exists>t. printint_text v 16 0 = Some t"
proof -
  have u: "unat y < 4294967296" for y :: "32 word"
    using unsigned_less[of y] by simp
  have 10: "\<exists>ds. printint_buf y 10 = Some ds \<and> length ds \<le> 10" for y
    using printint_buf_some[where base=10 and k=10 and x=y] u[of y] by simp
  have 16: "\<exists>ds. printint_buf y 16 = Some ds \<and> length ds \<le> 8" for y
    using printint_buf_some[where base=16 and k=8 and x=y] u[of y] by simp
  show "\<exists>t. printint_text v 10 1 = Some t"
    using 10[of v] 10[of "- v"] by (auto simp: printint_text_def Let_def)
  show "\<exists>t. printint_text v 16 0 = Some t"
    using 16[of v] by (auto simp: printint_text_def Let_def)
qed

lemma cprintf_switch_null_as_text:
  "fst (cprintf_switch c (map null_as_text ap) m) = fst (cprintf_switch c ap m)"
  "snd (cprintf_switch c (map null_as_text ap) m) = map null_as_text (snd (cprintf_switch c ap m))"
  unfolding cprintf_switch_def
  by (auto simp: null_as_text_def Let_def split: list.split arg.split option.split)

lemma cprintf_loop_null_as_text:
  "cprintf_loop fmt (map null_as_text ap) m = cprintf_loop fmt ap m"
proof (induction fmt ap m rule: cprintf_loop.induct)
  case (1 ap m)
  then show ?case by simp
next
  case (2 f ap m)
  then show ?case by simp
next
  case (3 f d fs ap m)
  let ?c = "sint f AND 0xff" and ?e = "sint d AND 0xff"
  consider "?c = 0" | "?c \<noteq> 0" "?c \<noteq> 37" | "?c = 37" "?e = 0" | "?c = 37" "?e \<noteq> 0"
    by blast
  then show ?case
  proof cases
    case 1
    then show ?thesis by simp
  next
    case 2
    then have "cprintf_loop (d # fs) (map null_as_text ap) = cprintf_loop (d # fs) ap"
      using "3.IH"(1)[OF refl] by (intro ext) simp
    then show ?thesis
      using 2 by simp
  next
    case 3
    then show ?thesis by simp
  next
    case 4
    then have "cprintf_loop fs (map null_as_text (snd (cprintf_switch ?e ap m)))
        = cprintf_loop fs (snd (cprintf_switch ?e ap m))"
      using "3.IH"(2)[OF refl _ _ refl] by (intro ext) simp
    then show ?thesis
      using 4 by (simp add: Let_def cprintf_switch_null_as_text)
  qed
qed

lemma cprintf_null_as_text:
  "cprintf env (Some fmt) (map null_as_text ap) m = cprintf env (Some fmt) ap m"
  by (simp add: cprintf_def cprintf_fmt_def cprintf_loop_null_as_text)

lemma map_option_append_Nil: "map_option ((@) []) x = x"
  by (cases x) simp_all

lemma map_option_append_Cons: "map_option ((@) (c # t)) x = map_option ((#) c) (map_option ((@) t) x)"
  by (cases x) simp_all

lemma map_option_append_append:
  "map_option ((@) t) (map_option ((@) u) x) = map_option ((@) (t @ u)) x"
  by (cases x) simp_all

lemma cprintf_text_append:
  "fmt_piece pre \<Longrightarrow>
   cprintf_text (pre @ post) ap =
     (case cprintf_text pre ap of
        None \<Rightarrow> None
      | Some t \<Rightarrow>
          (case cprintf_args pre ap of
             None \<Rightarrow> None
           | Some ap1 \<Rightarrow> map_option ((@) t) (cprintf_text post ap1)))"
proof (induction pre ap rule: cprintf_text.induct)
  case (1 ap)
  then show ?case by (simp add: map_option_append_Nil)
next
  case (2 f ap)
  then show ?case
    by (cases post) (simp_all add: map_option_append_Cons map_option_append_Nil)
next
  case (3 f d fs ap)
  have f0: "uint f \<noteq> 0"
    using "3.prems" by simp
  show ?case
  proof (cases "uint f = 37")
    case False
    have p: "fmt_piece (d # fs)"
      using "3.prems" False by simp
    have "cprintf_text ((f # d # fs) @ post) ap
        = map_option ((#) (uint f)) (cprintf_text ((d # fs) @ post) ap)"
      using f0 False by simp
    also have "cprintf_text ((d # fs) @ post) ap =
        (case cprintf_text (d # fs) ap of
           None \<Rightarrow> None
         | Some t \<Rightarrow>
             (case cprintf_args (d # fs) ap of
                None \<Rightarrow> None
              | Some ap1 \<Rightarrow> map_option ((@) t) (cprintf_text post ap1)))"
      using "3.IH"(1)[OF f0 False p] .
    finally show ?thesis
      using f0 False
      by (simp add: map_option_append_Cons split: option.split)
  next
    case True
    have d0: "uint d \<noteq> 0" and p: "fmt_piece fs"
      using "3.prems" True by simp_all
    show ?thesis
    proof (cases "cprintf_switch_text (uint d) ap")
      case None
      then show ?thesis
        using f0 True d0 by simp
    next
      case (Some x)
      obtain t ap1 where x: "x = (t, ap1)" by (cases x)
      have ih: "cprintf_text (fs @ post) ap1 =
          (case cprintf_text fs ap1 of
             None \<Rightarrow> None
           | Some t \<Rightarrow>
               (case cprintf_args fs ap1 of
                  None \<Rightarrow> None
                | Some ap2 \<Rightarrow> map_option ((@) t) (cprintf_text post ap2)))"
        using "3.IH"(2)[OF f0 _ d0 Some x[symmetric] p] True by simp
      have "cprintf_text ((f # d # fs) @ post) ap = map_option ((@) t) (cprintf_text (fs @ post) ap1)"
        using f0 True d0 Some x by simp
      then show ?thesis
        using f0 True d0 Some x
        by (simp add: ih map_option_append_append split: option.split)
    qed
  qed
qed

lemma cprintf_text_null_directive:
  assumes "fmt_piece pre" "cprintf_text pre ap0 = Some t"
    and "cprintf_args pre ap0 = Some (ArgStr None # ap)" "cprintf_text post ap = Some rest"
  shows "cprintf_text (pre @ bytes ''%s'' @ post) ap0 = Some (t @ map sint (bytes ''(null)'') @ rest)"
proof -
  have "cprintf_text (bytes ''%s'' @ post) (ArgStr None # ap) = Some (map sint (bytes ''(null)'') @ rest)"
    using cprintf_text_literal[of "[]" post ap] assms(4) by simp
  then show ?thesis
    using assms(1,2,3) by (simp add: cprintf_text_append)
qed

lemma cprintf_returns_printed:
  assumes "cprintf_text fmt ap = Some out" "panicked m = 0" "cursor m < 2000"
  shows "\<exists>m'. cprintf env (Some fmt) ap m = Returns m' \<and> cprintf_printed m out m'"
proof -
  let ?m1 = "if cons_locking m \<noteq> 0 then emit [Acquire ConsLock] m else m"
  have r: "panicked ?m1 = 0" "cursor ?m1 < 2000"
    using assms(2,3) by simp_all
  obtain m2 where m2: "cprintf_loop fmt ap ?m1 = Returns m2" "printed ?m1 out m2"
    using cprintf_loop_printed[OF assms(1) r] by blast
  let ?m3 = "if cons_locking m \<noteq> 0 then emit [Release ConsLock] m2 else m2"
  have "cprintf env (Some fmt) ap m = Returns ?m3"
    using m2(1) by (simp add: cprintf_def cprintf_fmt_def then_do_def Let_def)
  moreover have "cprintf_printed m out ?m3"
    using m2(2) by (simp add: cprintf_printed_def printed_def)
  ultimately show ?thesis
    by blast
qed

section \<open>A null string argument to cprintf\<close>

text \<open>
  Claim C9. For every format string that holds a directive \<open>%s\<close> whose argument is a
  null pointer, cprintf renders the placeholder \<open>(null)\<close> in place of the string and
  returns. The format is any \<open>pre\<close>, then \<open>%s\<close>, then any \<open>post\<close>, where the directives
  of \<open>pre\<close> leave the null pointer as the next argument; the call is made on a machine
  that has not panicked, with the cursor on the screen, and the other directives have
  the arguments they ask for. Then the call returns, and the characters put out are
  those of \<open>pre\<close>, then the six characters of \<open>(null)\<close>, then those of \<open>post\<close>: they
  are sent to the serial port in this order, between taking and releasing the console
  lock when locking is on, and the screen and the cursor are those that these
  characters produce. More generally a call returns with the text of its format put
  out whenever that text is defined; and for every format string and every argument
  list, the call with null string arguments has the outcome of the call in which each
  of them points to the text \<open>(null)\<close>.
\<close>

theorem null_string_placeholder:
  fixes ap0 ap args :: "'a::len word arg list" and env :: "'a word cpu_env"
  assumes "panicked m = 0" and "cursor m < 2000"
  shows "(fmt_piece pre \<and> cprintf_text pre ap0 = Some t
            \<and> cprintf_args pre ap0 = Some (ArgStr None # ap)
            \<and> cprintf_text post ap = Some rest \<longrightarrow>
          (\<exists>m'. cprintf env (Some (pre @ bytes ''%s'' @ post)) ap0 m = Returns m'
             \<and> cprintf_printed m (t @ map sint (bytes ''(null)'') @ rest) m'))
       \<and> (cprintf_text fmt args = Some out \<longrightarrow>
          (\<exists>m'. cprintf env (Some fmt) args m = Returns m' \<and> cprintf_printed m out m'))
       \<and> cprintf env (Some fmt) (map null_as_text args) m = cprintf env (Some fmt) args m"
proof (intro conjI impI)
  assume a: "fmt_piece pre \<and> cprintf_text pre ap0 = Some t
    \<and> cprintf_args pre ap0 = Some (ArgStr None # ap) \<and> cprintf_text post ap = Some rest"
  then have "cprintf_text (pre @ bytes ''%s'' @ post) ap0 = Some (t @ map sint (bytes ''(null)'') @ rest)"
    by (intro cprintf_text_null_directive) blast+
  then show "\<exists>m'. cprintf env (Some (pre @ bytes ''%s'' @ post)) ap0 m = Returns m'
      \<and> cprintf_printed m (t @ map sint (bytes ''(null)'') @ rest) m'"
    using assms by (rule cprintf_returns_printed)
next
  assume "cprintf_text fmt args = Some out"
  then show "\<exists>m'. cprintf env (Some fmt) args m = Returns m' \<and> cprintf_printed m out m'"
    using assms by (rule cprintf_returns_printed)
next
  show "cprintf env (Some fmt) (map null_as_text args) m = cprintf env (Some fmt) args m"
    by (rule cprintf_null_as_text)
qed

lemma printint_text_7: "printint_text 7 10 1 = Some [55]"
  by (simp add: printint_text_def printint_buf.simps[of 7 10] digits_def bytes_def word_sless_alt)

lemma printint_text_ff: "printint_text 255 16 0 = Some [102, 102]"
  by (simp add: printint_text_def printint_buf.simps[of 255 16] printint_buf.simps[of 15 16]
      digits_def bytes_def)

lemma cga_steps_line:
  "cga_steps [55, 58, 40, 110, 117, 108, 108, 41, 33, 10] (\<lambda>i. 0x0720, 0)
     = ((\<lambda>i. 0x0720)(0 := 0x0737, 1 := 0x073a, 2 := 0x0728, 3 := 0x076e, 4 := 0x0775,
          5 := 0x076c, 6 := 0x076c, 7 := 0x0729, 8 := 0x0721, 9 := 0x0720, 80 := 0x0720), 80)"
  by (simp add: cga_steps_def cga_step_def cga_advance_def default_cell_def Let_def)

lemma cga_steps_percent:
  "cga_steps [102, 102, 37, 37, 113] (\<lambda>i. 0x0720, 0)
     = ((\<lambda>i. 0x0720)(0 := 0x0766, 1 := 0x0766, 2 := 0x0725, 3 := 0x0725, 4 := 0x0771,
          5 := 0x0720), 5)"
  by (simp add: cga_steps_def cga_step_def cga_advance_def default_cell_def Let_def)

theorem null_string_placeholder_witness:
  "(\<exists>m'. cprintf \<lparr>cpu_id = 0, callerpcs = [] :: 64 word list\<rparr> (Some (bytes ''%d:%s!'' @ [10]))
            [ArgInt 7, ArgStr None] machine0 = Returns m'
        \<and> trace m' = [Acquire ConsLock, Uartputc 55, Uartputc 58, Uartputc 40, Uartputc 110,
                       Uartputc 117, Uartputc 108, Uartputc 108, Uartputc 41, Uartputc 33,
                       Uartputc 10, Release ConsLock]
        \<and> cursor m' = 80
        \<and> map (crt m') [0 ..< 10]
            = [0x0737, 0x073a, 0x0728, 0x076e, 0x0775, 0x076c, 0x076c, 0x0729, 0x0721, 0x0720])
   \<and> (\<exists>m'. cprintf \<lparr>cpu_id = 0, callerpcs = [] :: 64 word list\<rparr> (Some (bytes ''%x%%%q''))
            [ArgInt 255] machine0 = Returns m'
        \<and> trace m' = [Acquire ConsLock, Uartputc 102, Uartputc 102, Uartputc 37, Uartputc 37,
                       Uartputc 113, Release ConsLock]
        \<and> cursor m' = 5
        \<and> map (crt m') [0 ..< 6] = [0x0766, 0x0766, 0x0725, 0x0725, 0x0771, 0x0720])"
proof -
  have r: "panicked machine0 = 0" "cursor machine0 < 2000"
    by (simp_all add: machine0_screen)
  have p: "fmt_piece (bytes ''%d:'')"
    "cprintf_text (bytes ''%d:'') [ArgInt 7, ArgStr None :: 64 word arg] = Some [55, 58]"
    "cprintf_args (bytes ''%d:'') [ArgInt 7, ArgStr None :: 64 word arg] = Some [ArgStr None]"
    "cprintf_text (bytes ''!'' @ [10]) ([] :: 64 word arg list) = Some [33, 10]"
    "cprintf_text (bytes ''%x%%%q'') [ArgInt 255 :: 64 word arg] = Some [102, 102, 37, 37, 113]"
    by (simp_all add: bytes_def cprintf_switch_text_def printint_text_7 printint_text_ff)
  note t = null_string_placeholder [OF r, where pre = "bytes ''%d:''"
      and ?ap0.0 = "[ArgInt 7, ArgStr None]" and t = "[55, 58]" and ap = "[]"
      and post = "bytes ''!'' @ [10]" and rest = "[33, 10]"
      and env = "\<lparr>cpu_id = 0, callerpcs = [] :: 64 word list\<rparr>"
      and fmt = "bytes ''%x%%%q''" and args = "[ArgInt 255]" and out = "[102, 102, 37, 37, 113]"]
  have a: "\<exists>m'. cprintf \<lparr>cpu_id = 0, callerpcs = [] :: 64 word list\<rparr>
        (Some (bytes ''%d:%s!'' @ [10])) [ArgInt 7, ArgStr None] machine0 = Returns m'
      \<and> cprintf_printed machine0 [55, 58, 40, 110, 117, 108, 108, 41, 33, 10] m'"
    using t p(1-4) by (simp add: bytes_def)
  have b: "\<exists>m'. cprintf \<lparr>cpu_id = 0, callerpcs = [] :: 64 word list\<rparr>
        (Some (bytes ''%x%%%q'')) [ArgInt 255] machine0 = Returns m'
      \<and> cprintf_printed machine0 [102, 102, 37, 37, 113] m'"
    using t p(5) by simp
  have m: "trace machine0 = []" "cons_locking machine0 = 1" "cursor machine0 = 0"
    "crt machine0 = (\<lambda>i. 0x0720)"
    by (simp_all add: machine0_def cursor_def)
  have c: "(crt m', cursor m') = (scr, pos) \<Longrightarrow> crt m' = scr \<and> cursor m' = pos" for m' scr pos
    by simp
  have u: "[0 ..< 10] = [0, 1, 2, 3, 4, 5, 6, 7, 8, 9]" "[0 ..< 6] = [0, 1, 2, 3, 4, 5]"
    by (simp_all add: upt_rec)
  show ?thesis
  proof (intro conjI)
    obtain m' where m': "cprintf \<lparr>cpu_id = 0, callerpcs = [] :: 64 word list\<rparr>
        (Some (bytes ''%d:%s!'' @ [10])) [ArgInt 7, ArgStr None] machine0 = Returns m'"
      "cprintf_printed machine0 [55, 58, 40, 110, 117, 108, 108, 41, 33, 10] m'"
      using a by blast
    have "crt m' = (\<lambda>i. 0x0720)(0 := 0x0737, 1 := 0x073a, 2 := 0x0728, 3 := 0x076e, 4 := 0x0775,
          5 := 0x076c, 6 := 0x076c, 7 := 0x0729, 8 := 0x0721, 9 := 0x0720, 80 := 0x0720)
        \<and> cursor m' = 80"
      using m'(2) unfolding cprintf_printed_def m cga_steps_line by (intro c) blast
    moreover have "trace m' = [Acquire ConsLock, Uartputc 55, Uartputc 58, Uartputc 40, Uartputc 110,
        Uartputc 117, Uartputc 108, Uartputc 108, Uartputc 41, Uartputc 33, Uartputc 10,
        Release ConsLock]"
      using m'(2) by (simp add: cprintf_printed_def m)
    ultimately show "\<exists>m'. cprintf \<lparr>cpu_id = 0, callerpcs = [] :: 64 word list\<rparr>
          (Some (bytes ''%d:%s!'' @ [10])) [ArgInt 7, ArgStr None] machine0 = Returns m'
        \<and> trace m' = [Acquire ConsLock, Uartputc 55, Uartputc 58, Uartputc 40, Uartputc 110,
                       Uartputc 117, Uartputc 108, Uartputc 108, Uartputc 41, Uartputc 33,
                       Uartputc 10, Release ConsLock]
        \<and> cursor m' = 80
        \<and> map (crt m') [0 ..< 10]
            = [0x0737, 0x073a, 0x0728, 0x076e, 0x0775, 0x076c, 0x076c, 0x0729, 0x0721, 0x0720]"
      using m'(1) by (intro exI[of _ m']) (simp add: u)
  next
    obtain m' where m': "cprintf \<lparr>cpu_id = 0, callerpcs = [] :: 64 word list\<rparr>
        (Some (bytes ''%x%%%q'')) [ArgInt 255] machine0 = Returns m'"
      "cprintf_printed machine0 [102, 102, 37, 37, 113] m'"
      using b by blast
    have "crt m' = (\<lambda>i. 0x0720)(0 := 0x0766, 1 := 0x0766, 2 := 0x0725, 3 := 0x0725, 4 := 0x0771,
          5 := 0x0720) \<and> cursor m' = 5"
      using m'(2) unfolding cprintf_printed_def m cga_steps_percent by (intro c) blast
    moreover have "trace m' = [Acquire ConsLock, Uartputc 102, Uartputc 102, Uartputc 37, Uartputc 37,
        Uartputc 113, Release ConsLock]"
      using m'(2) by (simp add: cprintf_printed_def m)
    ultimately show "\<exists>m'. cprintf \<lparr>cpu_id = 0, callerpcs = [] :: 64 word list\<rparr>
          (Some (bytes ''%x%%%q'')) [ArgInt 255] machine0 = Returns m'
        \<and> trace m' = [Acquire ConsLock, Uartputc 102, Uartputc 102, Uartputc 37, Uartputc 37,
                       Uartputc 113, Release ConsLock]
        \<and> cursor m' = 5
        \<and> map (crt m') [0 ..< 6] = [0x0766, 0x0766, 0x0725, 0x0725, 0x0771, 0x0720]"
      using m'(1) by (intro exI[of _ m']) (simp add: u)
  qed
qed

end
